theory Spec2Isabelle
  imports Main "HOL-Library.Word"
begin

unbundle bit_operations_syntax

section \<open>The symbol codec of \<^verbatim>\<open>src/src/SymbolCodec.c\<close>\<close>

subsection \<open>Primitive types (\<^verbatim>\<open>PrimitiveTypes.h\<close>)\<close>

type_synonym jByte = "8 word"
type_synonym jChar = "16 word"
type_synonym jInt = "32 word"
type_synonym jLong = "64 word"

text \<open>A Java/C string of 16-bit code units; \<open>None\<close> is the null reference.\<close>

type_synonym jString = "jChar list"

text \<open>Every way a codec operation can fail.\<close>

datatype error =
    InternalError          \<comment> \<open>\<^verbatim>\<open>pr_internal_error\<close>\<close>
  | IllegalArgument        \<comment> \<open>\<^verbatim>\<open>pr_illegal_argument\<close>\<close>
  | ReservedBitSequence    \<comment> \<open>\<^verbatim>\<open>IOException("Reserved bit sequence.")\<close>\<close>
  | IllegalLength          \<comment> \<open>\<^verbatim>\<open>IOException("Illegal length.")\<close>\<close>
  | CodePointBeyondBMP     \<comment> \<open>\<^verbatim>\<open>UTFDataFormatException("Code point is beyond BMP.")\<close>\<close>
  | SourceError            \<comment> \<open>an exception raised by the byte source itself\<close>
  | PentaStringError       \<comment> \<open>a failure of the helper \<^verbatim>\<open>toString\<close>\<close>

subsection \<open>The character tables\<close>

text \<open>
  The three global arrays \<^verbatim>\<open>pentas[128]\<close>, \<^verbatim>\<open>plength[128]\<close> and
  \<^verbatim>\<open>characters[1024]\<close>. Every index the code uses on them is in range; a list
  update out of range would leave the list as it is.
\<close>

record tables =
  pentas :: "jInt list"
  plength :: "jInt list"
  characters :: "jChar list"

definition penta_length :: nat where
  "penta_length = 128"

text \<open>Globals are zero-initialised before any code runs.\<close>

definition static_tables :: tables where
  "static_tables =
     \<lparr>pentas = replicate penta_length 0,
      plength = replicate penta_length 0,
      characters = replicate 1024 0\<rparr>"

definition initPenta :: "jInt \<Rightarrow> jInt \<Rightarrow> jInt \<Rightarrow> tables \<Rightarrow> tables" where
  "initPenta c penta0 plen0 t =
     \<lparr>pentas = (pentas t)[unat c := penta0],
      plength = (plength t)[unat c := plen0],
      characters = (characters t)[unat penta0 := ucast c]\<rparr>"

text \<open>\<^verbatim>\<open>for (i = penta_length; --i >= 0;) plength[i] = 64;\<close>\<close>

fun fill_plength :: "nat \<Rightarrow> jInt list \<Rightarrow> jInt list" where
  "fill_plength 0 pl = pl"
| "fill_plength (Suc i) pl = fill_plength i (pl[i := 64])"

text \<open>
  \<^verbatim>\<open>for (i = 'A'; i <= 'Z'; ++i) initPenta(i, i - 'A' + 1, 5);\<close>
  The counter stays below 127, so it is a \<open>nat\<close> here and is converted where it is
  passed on.
\<close>

function init_letters :: "nat \<Rightarrow> tables \<Rightarrow> tables" where
  "init_letters i t =
     (if i \<le> 90
      then init_letters (i + 1) (initPenta (of_nat i) (of_nat i - 65 + 1) 5 t)
      else t)"
  by pat_completeness auto
termination
  by (relation "measure (\<lambda>(i, t). 91 - i)") auto

text \<open>
  The second loop, over \<^verbatim>\<open>i = 32 .. 126\<close>, with the running \<^verbatim>\<open>penta\<close>
  counter; it returns the tables and the counter.
\<close>

function init_printable :: "nat \<Rightarrow> jInt \<Rightarrow> tables \<Rightarrow> tables \<times> jInt" where
  "init_printable i penta t =
     (if i \<le> 126
      then (if pentas t ! i = 0 \<and> i \<noteq> 39 \<and> i \<noteq> 96
            then init_printable (i + 1) (penta + 1) (initPenta (of_nat i) penta 10 t)
            else init_printable (i + 1) penta t)
      else (t, penta))"
  by pat_completeness auto
termination
  by (relation "measure (\<lambda>(i, penta, t). 127 - i)") auto

text \<open>
  \<^verbatim>\<open>initSymbolCodec\<close> works on the global tables: the model takes them and returns
  them with what the function returns. When the final check fails it returns
  \<^verbatim>\<open>setParseError(pr_internal_error)\<close>. When the check passes, the source reaches the
  closing brace with no \<^verbatim>\<open>return\<close> statement: the function hands back no value of
  its own, which is \<open>None\<close> here.
\<close>

definition initSymbolCodec :: "tables \<Rightarrow> (error + unit) option \<times> tables" where
  "initSymbolCodec t0 =
     (let t1 = \<lparr>pentas = replicate penta_length 0,
                plength = fill_plength penta_length (plength t0),
                characters = replicate 1024 0\<rparr>;
          t2 = init_letters 65 t1;
          t3 = initPenta 46 27 5 t2;
          t4 = initPenta 47 28 5 t3;
          t5 = initPenta 36 29 5 t4;
          (t6, penta) = init_printable 32 0x03C0 t5
      in if penta \<noteq> 0x0400 then (Some (Inl InternalError), t6) else (None, t6))"

text \<open>The tables every later operation works on: the globals after initialisation.\<close>

definition codec_tables :: tables where
  "codec_tables = snd (initSymbolCodec static_tables)"

subsection \<open>Cipher codec\<close>

definition encodePenta :: "tables \<Rightarrow> jLong \<Rightarrow> jInt \<Rightarrow> jInt" where
  "encodePenta t penta plen =
     (if plen \<le>s 30 then ucast penta + 0x40000000
      else let c = (ucast (drop_bit 30 penta) :: jInt) in
        if c = pentas t ! 47 then (ucast penta AND 0x3FFFFFFF) + 0x80000000
        else if c = pentas t ! 36 then (ucast penta AND 0x3FFFFFFF) + 0xC0000000
        else 0)"

definition decodeCipher :: "tables \<Rightarrow> jInt \<Rightarrow> error + jLong" where
  "decodeCipher t cipher =
     (let tag = drop_bit 30 cipher in
      if tag = 0 then Inl IllegalArgument
      else if tag = 1 then Inr (scast (cipher AND 0x3FFFFFFF))
      else if tag = 2
        then Inr (push_bit 30 (scast (pentas t ! 47)) + scast (cipher AND 0x3FFFFFFF))
      else if tag = 3
        then Inr (push_bit 30 (scast (pentas t ! 36)) + scast (cipher AND 0x3FFFFFFF))
      else Inl InternalError)"

subsection \<open>Penta packer\<close>

text \<open>
  The loop of \<^verbatim>\<open>encode\<close> over the characters; \<open>None\<close> is its early
  \<^verbatim>\<open>return 0\<close>. A shift of a \<^verbatim>\<open>long\<close> uses the low six bits of the distance.
\<close>

fun encode_loop :: "tables \<Rightarrow> jString \<Rightarrow> jLong \<Rightarrow> jInt \<Rightarrow> (jLong \<times> jInt) option" where
  "encode_loop t [] penta plen = Some (penta, plen)"
| "encode_loop t (ch # cs) penta plen =
     (if 128 \<le> unat ch then None
      else let l = plength t ! unat ch in
        encode_loop t cs
          (push_bit (unat l mod 64) penta + scast (pentas t ! unat ch)) (plen + l))"

definition encode :: "tables \<Rightarrow> jString option \<Rightarrow> jInt" where
  "encode t symbol =
     (case symbol of
        None \<Rightarrow> 0
      | Some s \<Rightarrow>
          if 7 < length s then 0
          else (case encode_loop t s 0 0 of
                  None \<Rightarrow> 0
                | Some (penta, plen) \<Rightarrow>
                    if 35 <s plen then 0 else encodePenta t penta plen))"

text \<open>
  \<^verbatim>\<open>jInt WILDCARD_CIPHER = encode("*");\<close> is a static initialiser: it runs before
  \<^verbatim>\<open>initSymbolCodec\<close> can be called, on the zero-initialised tables, and nothing
  assigns the variable afterwards.
\<close>

definition WILDCARD_CIPHER :: jInt where
  "WILDCARD_CIPHER = encode static_tables (Some [42])"

subsection \<open>Rendering a packed penta\<close>

text \<open>
  \<^verbatim>\<open>int plen = 0; while ((penta >>> plen) != 0) plen += 5;\<close>
  The shift of a \<^verbatim>\<open>long\<close> uses the low six bits of \<^verbatim>\<open>plen\<close>, so the loop need
  not end; \<open>None\<close> is the run that never leaves it.
\<close>

partial_function (option) plen_loop :: "jLong \<Rightarrow> jInt \<Rightarrow> jInt option" where
  "plen_loop penta plen =
     (if drop_bit (unat plen mod 64) penta = 0 then Some plen
      else plen_loop penta (plen + 5))"

declare plen_loop.simps [code]

text \<open>
  Modelled from the spec: \<^verbatim>\<open>penta_to_string(penta, plen)\<close> is not in the source.
  The spec: peel 5- or 10-bit groups from the top; each group maps through
  \<^verbatim>\<open>char_of\<close>; a group of value 30 or 31 is an escape mark, and the next 5 bits are
  concatenated to it to form a 10-bit penta; unused penta values in the table decode to
  fail. \<open>plen\<close> is a multiple of 5.
\<close>

fun penta_to_string :: "tables \<Rightarrow> jLong \<Rightarrow> nat \<Rightarrow> error + jString" where
  "penta_to_string t penta plen =
     (if plen < 5 then Inr []
      else
        let g = unat (take_bit 5 (drop_bit (plen - 5) penta)) in
        if (g = 30 \<or> g = 31) \<and> 10 \<le> plen
        then
          let code = unat (take_bit 10 (drop_bit (plen - 10) penta)) in
          if characters t ! code = 0 then Inl PentaStringError
          else (case penta_to_string t penta (plen - 10) of
                  Inl e \<Rightarrow> Inl e
                | Inr cs \<Rightarrow> Inr (characters t ! code # cs))
        else
          if characters t ! g = 0 then Inl PentaStringError
          else (case penta_to_string t penta (plen - 5) of
                  Inl e \<Rightarrow> Inl e
                | Inr cs \<Rightarrow> Inr (characters t ! g # cs)))"

declare penta_to_string.simps [simp del]

text \<open>
  Modelled from the spec: the helper \<^verbatim>\<open>toString(penta)\<close> that \<^verbatim>\<open>readSymbol\<close>
  calls is not in the source. The spec renders a penta with \<^verbatim>\<open>penta_to_string\<close> at
  the smallest multiple of 5 with \<^verbatim>\<open>penta >> plen == 0\<close>, which is what the loop above
  computes.
\<close>

definition toString :: "tables \<Rightarrow> jLong \<Rightarrow> (error + jString) option" where
  "toString t penta =
     (case plen_loop penta 0 of
        None \<Rightarrow> None
      | Some plen \<Rightarrow> Some (penta_to_string t penta (unat plen)))"

subsection \<open>Wire codec: \<^verbatim>\<open>readSymbol\<close>\<close>

text \<open>
  The byte source \<^verbatim>\<open>BufferedInput\<close> is outside the repository: it is a record of
  its six read operations over a source state of any type. Each read returns its value
  or raises, and leaves a new source state.
\<close>

record 'src BufferedInput =
  readUnsignedByte :: "'src \<Rightarrow> (error + jByte) \<times> 'src"
  readUnsignedShort :: "'src \<Rightarrow> (error + jChar) \<times> 'src"
  readInt :: "'src \<Rightarrow> (error + jInt) \<times> 'src"
  readCompactLong :: "'src \<Rightarrow> (error + jLong) \<times> 'src"
  readUTFChar :: "'src \<Rightarrow> (error + jInt) \<times> 'src"
  readUTFString :: "'src \<Rightarrow> (error + jString option) \<times> 'src"

text \<open>
  What a call of \<^verbatim>\<open>readSymbol\<close> can change: the source \<^verbatim>\<open>in\<close>, the caller's
  scratch array \<^verbatim>\<open>buffer\<close> and the slot \<^verbatim>\<open>result[0]\<close>.
\<close>

record 'src rs_state =
  src :: 'src
  buffer :: "jChar list"
  result :: "jString option"

text \<open>
  A statement of \<^verbatim>\<open>readSymbol\<close>: from a state to a value or an exception with the
  state it leaves; \<open>None\<close> when it does not return.
\<close>

type_synonym ('src, 'a) stmt = "'src rs_state \<Rightarrow> ((error + 'a) \<times> 'src rs_state) option"

definition return_val :: "'a \<Rightarrow> ('src, 'a) stmt" where
  "return_val a st = Some (Inr a, st)"

definition throw :: "error \<Rightarrow> ('src, 'a) stmt" where
  "throw e st = Some (Inl e, st)"

definition then_do :: "('src, 'a) stmt \<Rightarrow> ('a \<Rightarrow> ('src, 'b) stmt) \<Rightarrow> ('src, 'b) stmt" where
  "then_do m f st =
     (case m st of
        None \<Rightarrow> None
      | Some (Inl e, st') \<Rightarrow> Some (Inl e, st')
      | Some (Inr a, st') \<Rightarrow> f a st')"

definition from_in :: "('src \<Rightarrow> (error + 'a) \<times> 'src) \<Rightarrow> ('src, 'a) stmt" where
  "from_in rd st = (case rd (src st) of (r, s') \<Rightarrow> Some (r, st\<lparr>src := s'\<rparr>))"

definition set_result :: "jString option \<Rightarrow> ('src, unit) stmt" where
  "set_result r st = Some (Inr (), st\<lparr>result := r\<rparr>)"

text \<open>
  The loop \<^verbatim>\<open>for (int k = 0; k < length; k++)\<close> of the CESU-8 branch, writing into
  \<open>chars\<close>; it returns the array also when it raises.
\<close>

function read_chars ::
  "'src BufferedInput \<Rightarrow> nat \<Rightarrow> nat \<Rightarrow> 'src \<Rightarrow> jChar list \<Rightarrow> (error + unit) \<times> 'src \<times> jChar list"
where
  "read_chars io len k s chars =
     (if k < len
      then (case readUTFChar io s of
              (Inl e, s') \<Rightarrow> (Inl e, s', chars)
            | (Inr codePoint, s') \<Rightarrow>
                if 0xFFFF <s codePoint then (Inl CodePointBeyondBMP, s', chars)
                else read_chars io len (k + 1) s' (chars[k := ucast codePoint]))
      else (Inr (), s, chars))"
  by pat_completeness auto
termination
  by (relation "measure (\<lambda>(io, len, k, s, chars). len - k)") auto

declare read_chars.simps [simp del]

text \<open>
  The CESU-8 branch after the length checks. When \<^verbatim>\<open>length <= buffer.length\<close> the
  array \<^verbatim>\<open>chars\<close> is the caller's \<^verbatim>\<open>buffer\<close> itself, so the writes land there.
\<close>

definition read_cesu8 :: "'src BufferedInput \<Rightarrow> jLong \<Rightarrow> jLong \<Rightarrow> ('src, jInt) stmt" where
  "read_cesu8 io VALID_CIPHER len st =
     (let shared = (sint len \<le> int (length (buffer st)));
          chars = (if shared then buffer st else replicate (unat len) 0)
      in case read_chars io (unat len) 0 (src st) chars of
           (r, s', chars') \<Rightarrow>
             let st' = st\<lparr>src := s', buffer := (if shared then chars' else buffer st)\<rparr>
             in (case r of
                   Inl e \<Rightarrow> Some (Inl e, st')
                 | Inr _ \<Rightarrow>
                     if shared \<and> len AND VALID_CIPHER = 0 then Some (Inr (ucast len), st')
                     else Some (Inr 0, st'\<lparr>result := Some (take (unat len) chars')\<rparr>)))"

text \<open>Lines 242 to 248: from the penta to the cipher, with the fallback to a string.\<close>

definition penta_to_cipher ::
  "(jLong \<Rightarrow> (error + jString) option) \<Rightarrow> tables \<Rightarrow> jLong \<Rightarrow> ('src, jInt) stmt" where
  "penta_to_cipher toStr t penta st =
     (case plen_loop penta 0 of
        None \<Rightarrow> None
      | Some plen \<Rightarrow>
          let cipher = encodePenta t penta plen in
          if cipher = 0
          then (case toStr penta of
                  None \<Rightarrow> None
                | Some (Inl e) \<Rightarrow> Some (Inl e, st)
                | Some (Inr str) \<Rightarrow> Some (Inr cipher, st\<lparr>result := Some str\<rparr>))
          else Some (Inr cipher, st))"

text \<open>
  \<^verbatim>\<open>readSymbol\<close>. The constant \<^verbatim>\<open>VALID_CIPHER\<close> (widened to a \<^verbatim>\<open>long\<close>) and the
  helper \<^verbatim>\<open>toString\<close> are not in the source and are parameters. The first byte
  \<open>i\<close> is between 0 and 255.
\<close>

definition readSymbol ::
  "'src BufferedInput \<Rightarrow> jLong \<Rightarrow> (jLong \<Rightarrow> (error + jString) option) \<Rightarrow> tables
     \<Rightarrow> ('src, jInt) stmt" where
  "readSymbol io VALID_CIPHER toStr t =
     then_do (from_in (readUnsignedByte io)) (\<lambda>b.
       let i = unat b; iw = (ucast b :: jInt) in
       if i < 0x80 then
         then_do (from_in (readUnsignedByte io)) (\<lambda>b1.
           penta_to_cipher toStr t (scast (push_bit 8 iw + ucast b1)))
       else if i < 0xC0 then
         then_do (from_in (readUnsignedByte io)) (\<lambda>b1.
         then_do (from_in (readUnsignedShort io)) (\<lambda>sh.
           penta_to_cipher toStr t
             (scast (push_bit 24 (iw AND 0x3F) + push_bit 16 (ucast b1) + ucast sh))))
       else if i < 0xE0 then throw ReservedBitSequence
       else if i < 0xF0 then
         then_do (from_in (readUnsignedShort io)) (\<lambda>sh.
           penta_to_cipher toStr t (scast (push_bit 16 (iw AND 0x0F) + ucast sh)))
       else if i < 0xF8 then
         then_do (from_in (readInt io)) (\<lambda>w.
           penta_to_cipher toStr t
             (push_bit 32 (scast (iw AND 0x07)) + (scast w AND 0xFFFFFFFF)))
       else if i < 0xFC then throw ReservedBitSequence
       else if i = 0xFC then
         then_do (from_in (readUTFString io)) (\<lambda>str.
         then_do (set_result str) (\<lambda>_. return_val 0))
       else if i = 0xFD then
         then_do (from_in (readCompactLong io)) (\<lambda>len.
           if len <s - 1 \<or> 0x7FFFFFFF <s len then throw IllegalLength
           else if len = - 1 then then_do (set_result None) (\<lambda>_. return_val 0)
           else if len = 0 then then_do (set_result (Some [])) (\<lambda>_. return_val 0)
           else read_cesu8 io VALID_CIPHER len)
       else if i = 0xFE then penta_to_cipher toStr t 0
       else then_do (set_result None) (\<lambda>_. return_val 0))"

text \<open>
  A concrete byte source for running \<^verbatim>\<open>readSymbol\<close>: a queue of items. Bytes are
  read one at a time, big-endian for the 16- and 32-bit reads; a compact long, a UTF
  character and a UTF string, whose encodings are outside the repository, are queued
  already decoded. A read that does not find its item raises.
\<close>

datatype item = Byte jByte | CompactLong jLong | UTFChar jInt | UTFString "jString option"

fun queue_byte :: "item list \<Rightarrow> (error + jByte) \<times> item list" where
  "queue_byte (Byte b # q) = (Inr b, q)"
| "queue_byte q = (Inl SourceError, q)"

definition queue_short :: "item list \<Rightarrow> (error + jChar) \<times> item list" where
  "queue_short q =
     (case queue_byte q of
        (Inl e, q1) \<Rightarrow> (Inl e, q1)
      | (Inr b1, q1) \<Rightarrow>
          (case queue_byte q1 of
             (Inl e, q2) \<Rightarrow> (Inl e, q2)
           | (Inr b2, q2) \<Rightarrow> (Inr (push_bit 8 (ucast b1) + ucast b2), q2)))"

definition queue_int :: "item list \<Rightarrow> (error + jInt) \<times> item list" where
  "queue_int q =
     (case queue_short q of
        (Inl e, q1) \<Rightarrow> (Inl e, q1)
      | (Inr h, q1) \<Rightarrow>
          (case queue_short q1 of
             (Inl e, q2) \<Rightarrow> (Inl e, q2)
           | (Inr l, q2) \<Rightarrow> (Inr (push_bit 16 (ucast h) + ucast l), q2)))"

fun queue_long :: "item list \<Rightarrow> (error + jLong) \<times> item list" where
  "queue_long (CompactLong n # q) = (Inr n, q)"
| "queue_long q = (Inl SourceError, q)"

fun queue_char :: "item list \<Rightarrow> (error + jInt) \<times> item list" where
  "queue_char (UTFChar c # q) = (Inr c, q)"
| "queue_char q = (Inl SourceError, q)"

fun queue_string :: "item list \<Rightarrow> (error + jString option) \<times> item list" where
  "queue_string (UTFString s # q) = (Inr s, q)"
| "queue_string q = (Inl SourceError, q)"

definition queue_input :: "item list BufferedInput" where
  "queue_input =
     \<lparr>readUnsignedByte = queue_byte, readUnsignedShort = queue_short,
      readInt = queue_int, readCompactLong = queue_long,
      readUTFChar = queue_char, readUTFString = queue_string\<rparr>"

text \<open>The characters in the claims, their eligibility as the header comment gives it.\<close>

definition eligible :: "nat \<Rightarrow> bool" where
  "eligible c \<longleftrightarrow> 32 \<le> c \<and> c \<le> 126 \<and> c \<noteq> 39 \<and> c \<noteq> 96"

definition jstr :: "string \<Rightarrow> jString" where
  "jstr s = map (\<lambda>c. of_nat (of_char c)) s"

text \<open>
  The packed penta value of the data model: the penta codes of the characters
  concatenated, the first character in the highest bits, and the number of bits they
  take.
\<close>

fun packed_plen :: "tables \<Rightarrow> jString \<Rightarrow> nat" where
  "packed_plen t [] = 0"
| "packed_plen t (ch # cs) = unat (plength t ! unat ch) + packed_plen t cs"

fun packed_penta :: "tables \<Rightarrow> jString \<Rightarrow> nat" where
  "packed_penta t [] = 0"
| "packed_penta t (ch # cs) =
     unat (pentas t ! unat ch) * 2 ^ packed_plen t cs + packed_penta t cs"

section \<open>Verification\<close>

subsection \<open>Words: a low part and a tag\<close>

lemma low_or_high:
  fixes a b :: "'a::len word"
  shows "take_bit n a + push_bit n b = take_bit n a OR push_bit n b"
proof (rule disjunctive_add_eq_or)
  show "take_bit n a AND push_bit n b = 0"
    by (rule bit_word_eqI) (auto simp: bit_and_iff bit_take_bit_iff bit_push_bit_iff)
qed

lemma drop_low_high:
  fixes a b :: "'a::len word"
  shows "drop_bit n (take_bit n a + push_bit n b) = take_bit (LENGTH('a) - n) b"
  unfolding low_or_high
  by (rule bit_word_eqI)
    (auto simp: bit_or_iff bit_take_bit_iff bit_push_bit_iff bit_drop_bit_eq possible_bit_word)

lemma take_low_high:
  fixes a b :: "'a::len word"
  shows "take_bit n (take_bit n a + push_bit n b) = take_bit n a"
  unfolding low_or_high
  by (rule bit_word_eqI) (auto simp: bit_or_iff bit_take_bit_iff bit_push_bit_iff)

lemma low30_and: "(x :: jInt) AND 0x3FFFFFFF = take_bit 30 x"
proof -
  have "(0x3FFFFFFF :: jInt) = mask 30" by (simp add: mask_eq_exp_minus_1)
  then show ?thesis by (simp add: take_bit_eq_mask)
qed

lemma tag_consts:
  "(0x40000000 :: jInt) = push_bit 30 1"
  "(0x80000000 :: jInt) = push_bit 30 2"
  "(0xC0000000 :: jInt) = push_bit 30 3"
  by (simp_all add: push_bit_eq_mult)

lemma scast_low30:
  fixes y :: jInt
  shows "(scast (take_bit 30 y) :: jLong) = take_bit 30 (ucast y)"
  by (rule bit_word_eqI) (auto simp: bit_word_scast_iff bit_word_ucast_iff bit_take_bit_iff)

lemma ucast_low30:
  fixes x :: jLong
  shows "(ucast (take_bit 30 x) :: jInt) = take_bit 30 (ucast x)"
  by (rule bit_word_eqI) (auto simp: bit_word_ucast_iff bit_take_bit_iff)

lemma low30_ucast_ucast:
  fixes x :: jLong
  shows "take_bit 30 (ucast (ucast x :: jInt) :: jLong) = take_bit 30 x"
  by (rule bit_word_eqI) (auto simp: bit_word_ucast_iff bit_take_bit_iff)

lemma low30_ucast_ucast':
  fixes y :: jInt
  shows "take_bit 30 (ucast (ucast y :: jLong) :: jInt) = take_bit 30 y"
  by (rule bit_word_eqI) (auto simp: bit_word_ucast_iff bit_take_bit_iff)

lemma small_penta_low:
  fixes penta :: jLong
  assumes "drop_bit 30 penta = 0"
  shows "take_bit 30 penta = penta"
  using bits_ident [of 30 penta] assms by simp

lemma ucast_small_penta:
  fixes penta :: jLong
  assumes "drop_bit 30 penta = 0"
  shows "(ucast penta :: jInt) = take_bit 30 (ucast penta)"
  using small_penta_low [OF assms] ucast_low30 [of penta] by simp


lemma no_high_bits:
  fixes x :: "'a::len word"
  assumes "drop_bit k x = 0" and "k \<le> n"
  shows "\<not> bit x n"
proof -
  have "bit (drop_bit k x) (n - k) = bit x n"
    using assms(2) by (simp add: bit_drop_bit_eq)
  then show ?thesis using assms(1) by simp
qed


lemma drop_bit_zero_mono:
  fixes x :: "'a::len word"
  assumes "drop_bit k x = 0" and "k \<le> m"
  shows "drop_bit m x = 0"
proof -
  have "drop_bit m x = drop_bit (m - k) (drop_bit k x)"
    using assms(2) by (simp add: drop_bit_drop_bit)
  then show ?thesis using assms(1) by simp
qed

lemma drop_bit_zero_unat:
  fixes x :: "'a::len word"
  shows "drop_bit k x = 0 \<longleftrightarrow> unat x < 2 ^ k"
proof -
  have "drop_bit k x = 0 \<longleftrightarrow> unat (drop_bit k x) = 0"
    by (simp add: unat_eq_0)
  also have "\<dots> \<longleftrightarrow> unat x div 2 ^ k = 0"
    by (simp only: unat_drop_bit_eq) (simp add: drop_bit_eq_div)
  also have "\<dots> \<longleftrightarrow> unat x < 2 ^ k"
    by (simp add: div_eq_0_iff)
  finally show ?thesis .
qed

lemma plen_loop_small:
  assumes "drop_bit 35 penta = 0"
  shows "plen_loop penta 0 =
    Some (if penta = 0 then 0
          else if drop_bit 5 penta = 0 then 5
          else if drop_bit 10 penta = 0 then 10
          else if drop_bit 15 penta = 0 then 15
          else if drop_bit 20 penta = 0 then 20
          else if drop_bit 25 penta = 0 then 25
          else if drop_bit 30 penta = 0 then 30
          else 35)"
  using assms
  by (simp add: plen_loop.simps [of penta 0] plen_loop.simps [of penta 5]
      plen_loop.simps [of penta 10] plen_loop.simps [of penta 15]
      plen_loop.simps [of penta 20] plen_loop.simps [of penta 25]
      plen_loop.simps [of penta 30] plen_loop.simps [of penta 35])

lemma plen_loop_30:
  assumes "drop_bit 30 penta = 0"
  shows "\<exists>plen. plen_loop penta 0 = Some plen \<and> plen \<le>s 30"
proof -
  have "drop_bit 35 penta = 0" using assms by (rule drop_bit_zero_mono) simp
  then show ?thesis
    using assms by (simp add: plen_loop_small word_sle_eq)
qed

lemma plen_loop_35:
  assumes "drop_bit 35 penta = 0" and "drop_bit 30 penta \<noteq> 0"
  shows "plen_loop penta 0 = Some 35"
proof -
  have "drop_bit k penta \<noteq> 0" if "k \<le> 30" for k
    using drop_bit_zero_mono [of k penta 30] that assms(2) by blast
  from this [of 0] this [of 5] this [of 10] this [of 15] this [of 20] this [of 25] this [of 30]
  show ?thesis by (simp add: plen_loop_small [OF assms(1)])
qed

subsection \<open>The tables after initialisation\<close>

text \<open>
  One run of \<^verbatim>\<open>initSymbolCodec\<close> on the zero-initialised globals, and what the three
  tables hold afterwards, character by character.
\<close>

lemma table_facts:
  "(let r = initSymbolCodec static_tables; t = snd r;
        pt = pentas t; pl = plength t; ch = characters t in
      fst r = None \<and>
      length pt = 128 \<and> length pl = 128 \<and> length ch = 1024 \<and>
      ch ! 0 = 0 \<and> ch ! 30 = 0 \<and> ch ! 31 = 0 \<and>
      pt ! 47 = 28 \<and> pt ! 36 = 29 \<and> pt ! 42 = 968 \<and> pl ! 42 = 10 \<and>
      pl ! 47 = 5 \<and> pt ! 65 = 1 \<and> pl ! 65 = 5 \<and>
      list_all (\<lambda>c. if eligible c
         then (pl ! c = 5 \<and> 1 \<le> unat (pt ! c) \<and> unat (pt ! c) \<le> 29
               \<or> pl ! c = 10 \<and> 960 \<le> unat (pt ! c) \<and> unat (pt ! c) \<le> 1023)
              \<and> ch ! unat (pt ! c) = of_nat c
         else pl ! c = 64 \<and> pt ! c = 0) [0..<128])"
  by code_simp

lemma init_returns: "initSymbolCodec static_tables = (None, codec_tables)"
  using table_facts by (simp add: Let_def codec_tables_def prod_eq_iff)

lemma table_lengths:
  "length (pentas codec_tables) = 128" "length (plength codec_tables) = 128"
  "length (characters codec_tables) = 1024"
  using table_facts by (simp_all add: Let_def codec_tables_def)

lemma unused_pentas:
  "characters codec_tables ! 0 = 0" "characters codec_tables ! 30 = 0"
  "characters codec_tables ! 31 = 0"
  using table_facts by (simp_all add: Let_def codec_tables_def)

lemma slash_dollar: "pentas codec_tables ! 47 = 28" "pentas codec_tables ! 36 = 29"
  using table_facts by (simp_all add: Let_def codec_tables_def)

lemma star_entries: "plength codec_tables ! 42 = 10" "pentas codec_tables ! 42 = 968"
  using table_facts by (simp_all add: Let_def codec_tables_def)

lemma letter_entries:
  "plength codec_tables ! 47 = 5" "pentas codec_tables ! 65 = 1" "plength codec_tables ! 65 = 5"
  using table_facts by (simp_all add: Let_def codec_tables_def)

lemma each_char:
  assumes "c < 128"
  shows "if eligible c
     then (plength codec_tables ! c = 5 \<and> 1 \<le> unat (pentas codec_tables ! c)
             \<and> unat (pentas codec_tables ! c) \<le> 29
           \<or> plength codec_tables ! c = 10 \<and> 960 \<le> unat (pentas codec_tables ! c)
             \<and> unat (pentas codec_tables ! c) \<le> 1023)
          \<and> characters codec_tables ! unat (pentas codec_tables ! c) = of_nat c
     else plength codec_tables ! c = 64 \<and> pentas codec_tables ! c = 0"
proof -
  have "c \<in> set [0..<128]" using assms by simp
  moreover have "list_all (\<lambda>c. if eligible c
     then (plength codec_tables ! c = 5 \<and> 1 \<le> unat (pentas codec_tables ! c)
             \<and> unat (pentas codec_tables ! c) \<le> 29
           \<or> plength codec_tables ! c = 10 \<and> 960 \<le> unat (pentas codec_tables ! c)
             \<and> unat (pentas codec_tables ! c) \<le> 1023)
          \<and> characters codec_tables ! unat (pentas codec_tables ! c) = of_nat c
     else plength codec_tables ! c = 64 \<and> pentas codec_tables ! c = 0) [0..<128]"
    using table_facts by (simp only: Let_def codec_tables_def)
  ultimately show ?thesis unfolding list_all_iff by blast
qed

lemma eligible_char:
  assumes "eligible c"
  shows "(plength codec_tables ! c = 5 \<and> 1 \<le> unat (pentas codec_tables ! c)
            \<and> unat (pentas codec_tables ! c) \<le> 29
          \<or> plength codec_tables ! c = 10 \<and> 960 \<le> unat (pentas codec_tables ! c)
            \<and> unat (pentas codec_tables ! c) \<le> 1023)
         \<and> characters codec_tables ! unat (pentas codec_tables ! c) = of_nat c"
proof -
  have "c < 128" using assms by (simp add: eligible_def)
  from each_char [OF this] assms show ?thesis by simp
qed

lemma ineligible_char:
  assumes "c < 128" and "\<not> eligible c"
  shows "plength codec_tables ! c = 64 \<and> pentas codec_tables ! c = 0"
  using each_char [OF assms(1)] assms(2) by simp

lemma unat_jChar_of_nat: "c < 128 \<Longrightarrow> unat (of_nat c :: jChar) = c"
  by (simp add: unat_of_nat)

lemma card_eligible: "card {c. eligible c} = 93"
proof -
  have "{c. eligible c} = {32..126} - {39, 96}"
    by (auto simp: eligible_def)
  then show ?thesis by simp
qed

subsection \<open>Shapes of \<^verbatim>\<open>encodePenta\<close>\<close>

lemma high5_roundtrip:
  fixes penta :: jLong
  assumes "drop_bit 35 penta = 0"
  shows "(ucast (ucast (drop_bit 30 penta) :: jInt) :: jLong) = drop_bit 30 penta"
proof (rule bit_word_eqI)
  fix n
  assume "n < LENGTH(64)"
  have "drop_bit 5 (drop_bit 30 penta) = 0"
    using assms by (simp add: drop_bit_drop_bit)
  then have "\<not> bit (drop_bit 30 penta) n" if "5 \<le> n"
    using that by (rule no_high_bits)
  then show "bit (ucast (ucast (drop_bit 30 penta) :: jInt) :: jLong) n = bit (drop_bit 30 penta) n"
    by (cases "n < 32") (auto simp: bit_word_ucast_iff)
qed

lemma high5_eq:
  fixes penta :: jLong
  assumes "drop_bit 35 penta = 0"
  shows "(ucast (drop_bit 30 penta) :: jInt) = 28 \<longleftrightarrow> drop_bit 30 penta = 28"
    and "(ucast (drop_bit 30 penta) :: jInt) = 29 \<longleftrightarrow> drop_bit 30 penta = 29"
proof -
  show "(ucast (drop_bit 30 penta) :: jInt) = 28 \<longleftrightarrow> drop_bit 30 penta = 28"
  proof
    assume "(ucast (drop_bit 30 penta) :: jInt) = 28"
    then have "(ucast (ucast (drop_bit 30 penta) :: jInt) :: jLong) = ucast (28 :: jInt)" by simp
    then show "drop_bit 30 penta = 28" by (simp add: high5_roundtrip [OF assms])
  next
    assume "drop_bit 30 penta = 28" then show "(ucast (drop_bit 30 penta) :: jInt) = 28" by simp
  qed
  show "(ucast (drop_bit 30 penta) :: jInt) = 29 \<longleftrightarrow> drop_bit 30 penta = 29"
  proof
    assume "(ucast (drop_bit 30 penta) :: jInt) = 29"
    then have "(ucast (ucast (drop_bit 30 penta) :: jInt) :: jLong) = ucast (29 :: jInt)" by simp
    then show "drop_bit 30 penta = 29" by (simp add: high5_roundtrip [OF assms])
  next
    assume "drop_bit 30 penta = 29" then show "(ucast (drop_bit 30 penta) :: jInt) = 29" by simp
  qed
qed

text \<open>\<^verbatim>\<open>encodePenta\<close> in its three shapes.\<close>

lemma encodePenta_tag1:
  assumes "plen \<le>s 30" and "drop_bit 30 penta = 0"
  shows "encodePenta t penta plen = take_bit 30 (ucast penta) + push_bit 30 1"
  using assms ucast_small_penta [OF assms(2)] by (simp add: encodePenta_def push_bit_eq_mult)

lemma encodePenta_high:
  assumes "\<not> plen \<le>s 30" and "drop_bit 35 penta = 0"
  shows "encodePenta codec_tables penta plen =
    (if drop_bit 30 penta = 28 then take_bit 30 (ucast penta) + push_bit 30 2
     else if drop_bit 30 penta = 29 then take_bit 30 (ucast penta) + push_bit 30 3
     else 0)"
  using assms(1) high5_eq [OF assms(2)]
  by (simp add: encodePenta_def slash_dollar low30_and push_bit_eq_mult Let_def)

lemma tagged_nonzero:
  fixes y t :: jInt
  assumes "take_bit 2 t \<noteq> 0"
  shows "take_bit 30 y + push_bit 30 t \<noteq> 0"
proof
  assume "take_bit 30 y + push_bit 30 t = 0"
  then have "drop_bit 30 (take_bit 30 y + push_bit 30 t) = 0" by simp
  then show False using assms by (simp add: drop_low_high)
qed

subsection \<open>The loop of \<^verbatim>\<open>encode\<close>\<close>

lemma encode_loop_None:
  "encode_loop t s penta plen = None \<longleftrightarrow> (\<exists>ch\<in>set s. 128 \<le> unat ch)"
  by (induction s arbitrary: penta plen) (auto simp: Let_def)

lemma encode_loop_plen:
  assumes "encode_loop t s penta plen = Some (penta', plen')"
  shows "plen' = plen + of_nat (packed_plen t s)"
  using assms
proof (induction s arbitrary: penta plen)
  case Nil
  then show ?case by simp
next
  case (Cons ch cs)
  from Cons.prems have rec: "encode_loop t cs
      (push_bit (unat (plength t ! unat ch) mod 64) penta + scast (pentas t ! unat ch))
      (plen + plength t ! unat ch) = Some (penta', plen')"
    by (auto simp: Let_def split: if_splits)
  from Cons.IH [OF rec] show ?case by (simp add: add.assoc)
qed

lemma sint_of_nat_small:
  assumes "n < 2 ^ 31"
  shows "sint (of_nat n :: jInt) = int n"
proof -
  have "sint (of_nat n :: jInt) = signed_take_bit 31 (int n)"
    by (simp add: signed_of_nat)
  also have "\<dots> = int n"
    using assms by (intro signed_take_bit_int_eq_self) auto
  finally show ?thesis .
qed

lemma each_length_le_64:
  assumes "c < 128"
  shows "unat (plength codec_tables ! c) \<le> 64"
  using each_char [OF assms] by (auto split: if_splits)

lemma sum_lengths_le:
  assumes "\<forall>ch\<in>set s. unat ch < 128"
  shows "packed_plen codec_tables s \<le> 64 * length s"
  using assms by (induction s) (auto dest: each_length_le_64 simp: add_le_mono)

lemma sum_lengths_ge:
  assumes "ch \<in> set s"
  shows "unat (plength codec_tables ! unat ch)
    \<le> packed_plen codec_tables s"
  using assms by (induction s) auto

subsection \<open>The packed penta of an eligible string\<close>

lemma scast_small:
  fixes p :: jInt
  assumes "unat p < 2 ^ 31"
  shows "(scast p :: jLong) = of_nat (unat p)"
proof -
  have "drop_bit 31 p = 0" using assms by (simp only: drop_bit_zero_unat)
  then have "\<not> bit p 31" by (rule no_high_bits) simp
  then have "(scast p :: jLong) = ucast p"
    by - (rule bit_word_eqI, auto simp: bit_word_scast_iff bit_word_ucast_iff
        dest: bit_imp_le_length)
  then show ?thesis by simp
qed

lemma eligible_length:
  assumes "eligible c"
  shows "unat (plength codec_tables ! c) = 5 \<or> unat (plength codec_tables ! c) = 10"
  using eligible_char [OF assms] by auto

lemma eligible_penta_bound:
  assumes "eligible c"
  shows "unat (pentas codec_tables ! c) < 2 ^ unat (plength codec_tables ! c)"
  using eligible_char [OF assms] by auto

lemma encode_loop_eligible:
  assumes "\<forall>ch\<in>set s. eligible (unat ch)"
  shows "encode_loop codec_tables s penta plen =
    Some (push_bit (packed_plen codec_tables s) penta + of_nat (packed_penta codec_tables s),
          plen + of_nat (packed_plen codec_tables s))"
  using assms
proof (induction s arbitrary: penta plen)
  case Nil
  then show ?case by simp
next
  case (Cons ch cs)
  let ?c = "unat ch"
  let ?l = "unat (plength codec_tables ! ?c)"
  let ?p = "unat (pentas codec_tables ! ?c)"
  have el: "eligible ?c" using Cons.prems by simp
  then have ascii: "\<not> 128 \<le> ?c" by (simp add: eligible_def)
  have l: "?l mod 64 = ?l" using eligible_length [OF el] by auto
  have "?p < 2 ^ 31" using eligible_char [OF el] by auto
  then have p: "(scast (pentas codec_tables ! ?c) :: jLong) = of_nat ?p" by (rule scast_small)
  have rest: "\<forall>ch\<in>set cs. eligible (unat ch)" using Cons.prems by simp
  have "encode_loop codec_tables (ch # cs) penta plen =
      encode_loop codec_tables cs (push_bit ?l penta + of_nat ?p)
        (plen + plength codec_tables ! ?c)"
    using ascii l p by (simp add: Let_def)
  also have "\<dots> = Some (push_bit (packed_plen codec_tables cs) (push_bit ?l penta + of_nat ?p)
        + of_nat (packed_penta codec_tables cs),
      plen + plength codec_tables ! ?c + of_nat (packed_plen codec_tables cs))"
    by (rule Cons.IH [OF rest])
  also have "push_bit (packed_plen codec_tables cs) (push_bit ?l penta + of_nat ?p)
        + of_nat (packed_penta codec_tables cs)
      = push_bit (packed_plen codec_tables (ch # cs)) penta
        + of_nat (packed_penta codec_tables (ch # cs))"
    by (simp add: push_bit_eq_mult algebra_simps power_add)
  also have "plen + plength codec_tables ! ?c + of_nat (packed_plen codec_tables cs)
      = plen + of_nat (packed_plen codec_tables (ch # cs))"
    by (simp add: add.assoc)
  finally show ?case .
qed

lemma packed_penta_bound:
  assumes "\<forall>ch\<in>set s. eligible (unat ch)"
  shows "packed_penta codec_tables s < 2 ^ packed_plen codec_tables s"
  using assms
proof (induction s)
  case Nil
  then show ?case by simp
next
  case (Cons ch cs)
  let ?l = "unat (plength codec_tables ! unat ch)"
  let ?p = "unat (pentas codec_tables ! unat ch)"
  let ?b = "packed_plen codec_tables cs"
  let ?v = "packed_penta codec_tables cs"
  have "?p < 2 ^ ?l" using Cons.prems by (simp add: eligible_penta_bound)
  then have "?p + 1 \<le> 2 ^ ?l" by simp
  then have "(?p + 1) * 2 ^ ?b \<le> 2 ^ ?l * 2 ^ ?b" by (rule mult_le_mono1)
  moreover have "?v < 2 ^ ?b" using Cons by simp
  ultimately have "?p * 2 ^ ?b + ?v < 2 ^ ?l * 2 ^ ?b" by (simp add: algebra_simps)
  then show ?case by (simp add: power_add)
qed

lemma packed_plen_length:
  assumes "\<forall>ch\<in>set s. eligible (unat ch)"
  shows "5 * length s \<le> packed_plen codec_tables s"
  using assms
proof (induction s)
  case Nil
  then show ?case by simp
next
  case (Cons ch cs)
  then show ?case using eligible_length [of "unat ch"] by auto
qed

lemma packed_plen_dvd:
  assumes "\<forall>ch\<in>set s. eligible (unat ch)"
  shows "5 dvd packed_plen codec_tables s"
  using assms
proof (induction s)
  case Nil
  then show ?case by simp
next
  case (Cons ch cs)
  then show ?case using eligible_length [of "unat ch"] by auto
qed

lemma packed_penta_top:
  assumes "\<forall>ch\<in>set s. eligible (unat ch)" and "s \<noteq> []"
  shows "2 ^ (packed_plen codec_tables s - 5) \<le> packed_penta codec_tables s"
proof (cases s)
  case Nil
  with assms(2) show ?thesis by simp
next
  case (Cons ch cs)
  let ?l = "unat (plength codec_tables ! unat ch)"
  let ?p = "unat (pentas codec_tables ! unat ch)"
  let ?b = "packed_plen codec_tables cs"
  have el: "eligible (unat ch)" using assms(1) Cons by simp
  have "2 ^ (?l - 5) \<le> ?p" using eligible_char [OF el] by auto
  then have "2 ^ (?l - 5) * 2 ^ ?b \<le> ?p * 2 ^ ?b" by (rule mult_le_mono1)
  moreover have "?l + ?b - 5 = (?l - 5) + ?b" using eligible_length [OF el] by auto
  ultimately show ?thesis using Cons by (simp add: power_add trans_le_add1)
qed

subsection \<open>Decoding what \<^verbatim>\<open>encodePenta\<close> made\<close>

lemma decodeCipher_tagged:
  fixes y tg :: jInt
  shows "decodeCipher t (take_bit 30 y + push_bit 30 tg) =
    (if take_bit 2 tg = 0 then Inl IllegalArgument
     else if take_bit 2 tg = 1 then Inr (take_bit 30 (ucast y))
     else if take_bit 2 tg = 2
       then Inr (push_bit 30 (scast (pentas t ! 47)) + take_bit 30 (ucast y))
     else if take_bit 2 tg = 3
       then Inr (push_bit 30 (scast (pentas t ! 36)) + take_bit 30 (ucast y))
     else Inl InternalError)"
  unfolding decodeCipher_def Let_def low30_and drop_low_high take_low_high scast_low30
  by simp

lemma decode_encodePenta:
  assumes small: "drop_bit 35 penta = 0"
    and low: "plen \<le>s 30 \<Longrightarrow> drop_bit 30 penta = 0"
    and nz: "encodePenta codec_tables penta plen \<noteq> 0"
  shows "decodeCipher codec_tables (encodePenta codec_tables penta plen) = Inr penta"
proof (cases "plen \<le>s 30")
  case True
  note z = low [OF True]
  have "decodeCipher codec_tables (encodePenta codec_tables penta plen)
      = Inr (take_bit 30 (ucast (ucast penta :: jInt)))"
    unfolding encodePenta_tag1 [OF True z] decodeCipher_tagged by simp
  then show ?thesis
    by (simp only: low30_ucast_ucast small_penta_low [OF z])
next
  case False
  note enc = encodePenta_high [OF False small]
  from nz enc consider "drop_bit 30 penta = 28" | "drop_bit 30 penta = 29"
    by (auto split: if_splits)
  then show ?thesis
  proof cases
    case 1
    then have e: "encodePenta codec_tables penta plen = take_bit 30 (ucast penta) + push_bit 30 2"
      using enc by simp
    have "decodeCipher codec_tables (encodePenta codec_tables penta plen)
        = Inr (push_bit 30 28 + take_bit 30 (ucast (ucast penta :: jInt)))"
      unfolding e decodeCipher_tagged by (simp add: slash_dollar)
    also have "push_bit 30 28 + take_bit 30 (ucast (ucast penta :: jInt)) = penta"
      unfolding low30_ucast_ucast using bits_ident [of 30 penta] 1 by simp
    finally show ?thesis .
  next
    case 2
    then have e: "encodePenta codec_tables penta plen = take_bit 30 (ucast penta) + push_bit 30 3"
      using enc by simp
    have "decodeCipher codec_tables (encodePenta codec_tables penta plen)
        = Inr (push_bit 30 29 + take_bit 30 (ucast (ucast penta :: jInt)))"
      unfolding e decodeCipher_tagged by (simp add: slash_dollar)
    also have "push_bit 30 29 + take_bit 30 (ucast (ucast penta :: jInt)) = penta"
      unfolding low30_ucast_ucast using bits_ident [of 30 penta] 2 by simp
    finally show ?thesis .
  qed
qed

lemma unat_of_nat_jLong:
  assumes "n < 2 ^ 35"
  shows "unat (of_nat n :: jLong) = n"
proof -
  have "n < 2 ^ 64" using assms by (rule less_trans) simp
  then show ?thesis by (simp add: unat_of_nat)
qed

lemma plen_loop_exact:
  assumes dvd: "5 dvd b" and le: "b \<le> 35" and hi: "n < 2 ^ b"
    and top: "b = 0 \<or> 2 ^ (b - 5) \<le> n"
  shows "plen_loop (of_nat n) 0 = Some (of_nat b)"
proof -
  have "(2::nat) ^ b \<le> 2 ^ 35" using le by (intro power_increasing) auto
  then have n35: "n < 2 ^ 35" using hi by linarith
  note un = unat_of_nat_jLong [OF n35]
  have cond: "drop_bit k (of_nat n :: jLong) = 0 \<longleftrightarrow> n < 2 ^ k" for k
    by (simp only: drop_bit_zero_unat un)
  have zero: "(of_nat n :: jLong) = 0 \<longleftrightarrow> n = 0"
    using cond [of 0] by simp
  from dvd obtain j where j: "b = 5 * j" ..
  with le have "j \<le> 7" by simp
  then have "j = 0 \<or> j = 1 \<or> j = 2 \<or> j = 3 \<or> j = 4 \<or> j = 5 \<or> j = 6 \<or> j = 7"
    by linarith
  with j have "b = 0 \<or> b = 5 \<or> b = 10 \<or> b = 15 \<or> b = 20 \<or> b = 25 \<or> b = 30 \<or> b = 35"
    by auto
  then consider "b = 0" | "b = 5" | "b = 10" | "b = 15" | "b = 20" | "b = 25"
    | "b = 30" | "b = 35"
    by blast
  then show ?thesis
  proof cases
    case 1 with hi show ?thesis by (simp add: plen_loop.simps [of 0 0])
  next
    case 2 with hi top show ?thesis
      by (simp add: plen_loop_small cond zero)
  next
    case 3 with hi top show ?thesis
      by (simp add: plen_loop_small cond zero)
  next
    case 4 with hi top show ?thesis
      by (simp add: plen_loop_small cond zero)
  next
    case 5 with hi top show ?thesis
      by (simp add: plen_loop_small cond zero)
  next
    case 6 with hi top show ?thesis
      by (simp add: plen_loop_small cond zero)
  next
    case 7 with hi top show ?thesis
      by (simp add: plen_loop_small cond zero)
  next
    case 8 with hi top show ?thesis
      by (simp add: plen_loop_small cond zero)
  qed
qed

subsection \<open>Rendering a packed penta\<close>

lemma take_bit_low_group:
  fixes p v b :: nat
  assumes "v < 2 ^ b"
  shows "take_bit b (p * 2 ^ b + v) = v"
  using assms by (simp add: take_bit_eq_mod)

lemma drop_bit_low_group:
  fixes p v b :: nat
  assumes "v < 2 ^ b"
  shows "drop_bit b (p * 2 ^ b + v) = p"
  using assms by (simp add: drop_bit_eq_div)

lemma eligible_nonzero:
  fixes ch :: jChar
  assumes "eligible (unat ch)"
  shows "ch \<noteq> 0"
  using assms by (auto simp: eligible_def)

lemma penta_to_string_packed:
  assumes "\<forall>ch\<in>set s. eligible (unat ch)"
    and "take_bit (packed_plen codec_tables s) (unat penta) = packed_penta codec_tables s"
  shows "penta_to_string codec_tables penta (packed_plen codec_tables s) = Inr s"
  using assms
proof (induction s)
  case Nil
  then show ?case by (simp add: penta_to_string.simps)
next
  case (Cons ch cs)
  let ?l = "unat (plength codec_tables ! unat ch)"
  let ?p = "unat (pentas codec_tables ! unat ch)"
  let ?b = "packed_plen codec_tables cs"
  let ?v = "packed_penta codec_tables cs"
  let ?N = "unat penta"
  have el: "eligible (unat ch)" and els: "\<forall>ch\<in>set cs. eligible (unat ch)"
    using Cons.prems(1) by simp_all
  have v: "?v < 2 ^ ?b" by (rule packed_penta_bound [OF els])
  have H: "take_bit (?l + ?b) ?N = ?p * 2 ^ ?b + ?v" using Cons.prems(2) by simp
  have "take_bit ?b (take_bit (?l + ?b) ?N) = take_bit ?b ?N"
    by (simp add: take_bit_take_bit)
  then have rest: "take_bit ?b ?N = ?v"
    unfolding H by (simp add: take_bit_low_group [OF v])
  have "drop_bit ?b (take_bit (?l + ?b) ?N) = take_bit ?l (drop_bit ?b ?N)"
    by (simp add: drop_bit_take_bit)
  then have grp: "take_bit ?l (drop_bit ?b ?N) = ?p"
    unfolding H by (simp add: drop_bit_low_group [OF v])
  have chr: "characters codec_tables ! ?p = ch"
    using eligible_char [OF el] by simp
  note nz = eligible_nonzero [OF el]
  note IH = Cons.IH [OF els rest]
  from eligible_char [OF el]
  consider "?l = 5" "1 \<le> ?p" "?p \<le> 29" | "?l = 10" "960 \<le> ?p" "?p \<le> 1023"
    by auto
  then show ?case
  proof cases
    case 1
    have g: "unat (take_bit 5 (drop_bit ?b penta)) = ?p"
      using grp 1(1) by (simp add: unsigned_take_bit_eq unat_drop_bit_eq)
    have "penta_to_string codec_tables penta (5 + ?b) = Inr (ch # cs)"
      using 1 by (subst penta_to_string.simps) (simp add: g chr nz IH)
    then show ?thesis using 1(1) by simp
  next
    case 2
    have code: "unat (take_bit 10 (drop_bit ?b penta)) = ?p"
      using grp 2(1) by (simp add: unsigned_take_bit_eq unat_drop_bit_eq)
    have "take_bit 5 (drop_bit (5 + ?b) ?N) = drop_bit 5 (take_bit 10 (drop_bit ?b ?N))"
      by (simp add: drop_bit_take_bit drop_bit_drop_bit add.commute)
    also have "\<dots> = ?p div 32" using grp 2(1) by (simp add: drop_bit_eq_div)
    finally have g: "unat (take_bit 5 (drop_bit (5 + ?b) penta)) = ?p div 32"
      by (simp add: unsigned_take_bit_eq unat_drop_bit_eq)
    have "960 div 32 \<le> ?p div 32" using 2(2) by (rule div_le_mono)
    moreover have "?p div 32 \<le> 1023 div 32" using 2(3) by (rule div_le_mono)
    ultimately have esc: "?p div 32 = 30 \<or> ?p div 32 = 31" by auto
    have "penta_to_string codec_tables penta (10 + ?b) = Inr (ch # cs)"
      using esc by (subst penta_to_string.simps) (auto simp: g code chr nz IH)
    then show ?thesis using 2(1) by simp
  qed
qed

lemma encode_eligible:
  assumes el: "\<forall>ch\<in>set s. eligible (unat ch)"
    and le: "packed_plen codec_tables s \<le> 35"
  shows "encode codec_tables (Some s) =
    encodePenta codec_tables (of_nat (packed_penta codec_tables s))
      (of_nat (packed_plen codec_tables s))"
proof -
  let ?b = "packed_plen codec_tables s"
  have "5 * length s \<le> ?b" by (rule packed_plen_length [OF el])
  then have short: "\<not> 7 < length s" using le by linarith
  have loop: "encode_loop codec_tables s 0 0 =
      Some (of_nat (packed_penta codec_tables s), of_nat ?b)"
    using encode_loop_eligible [OF el, of 0 0] by simp
  have "sint (of_nat ?b :: jInt) = int ?b"
    using le by (intro sint_of_nat_small) simp
  then have "\<not> 35 <s (of_nat ?b :: jInt)" using le by (simp add: word_sless_alt)
  then show ?thesis using short loop by (simp add: encode_def)
qed

lemma encode_star: "encode codec_tables (Some [42]) = 0x400003C8"
  by (simp add: encode_def encodePenta_def word_sle_eq word_sless_alt star_entries)

lemma encode_slash_letters:
  "encode codec_tables (Some [47, 65, 65, 65, 65, 65, 65]) = 0x82108421"
  by (simp add: encode_def encodePenta_def word_sle_eq word_sless_alt slash_dollar
      letter_entries drop_bit_eq_div)

lemma plen_loop_min:
  assumes small: "drop_bit 35 penta = 0"
  shows "\<exists>plen. plen_loop penta 0 = Some plen \<and> unat plen \<le> 35 \<and> 5 dvd unat plen \<and>
     drop_bit (unat plen) penta = 0 \<and>
     (\<forall>k<unat plen. 5 dvd k \<longrightarrow> drop_bit k penta \<noteq> 0) \<and>
     (plen \<le>s 30 \<longleftrightarrow> drop_bit 30 penta = 0)"
proof -
  let ?r = "if penta = 0 then 0
          else if drop_bit 5 penta = 0 then 5
          else if drop_bit 10 penta = 0 then 10
          else if drop_bit 15 penta = 0 then 15
          else if drop_bit 20 penta = 0 then 20
          else if drop_bit 25 penta = 0 then 25
          else if drop_bit 30 penta = 0 then 30
          else 35 :: jInt"
  have loop: "plen_loop penta 0 = Some ?r" by (rule plen_loop_small [OF small])
  have mono: "drop_bit m penta = 0" if "drop_bit k penta = 0" "k \<le> m" for k m
    using that by (rule drop_bit_zero_mono)
  have props: "unat ?r \<le> 35 \<and> 5 dvd unat ?r \<and> drop_bit (unat ?r) penta = 0 \<and>
      (unat ?r = 0 \<or> drop_bit (unat ?r - 5) penta \<noteq> 0)"
    using small by simp
  have least: "drop_bit k penta \<noteq> 0" if "k < unat ?r" "5 dvd k" for k
  proof
    assume z: "drop_bit k penta = 0"
    from that props have "k \<le> unat ?r - 5" by (elim dvdE conjE) (auto simp: algebra_simps)
    then have "drop_bit (unat ?r - 5) penta = 0" by (rule mono [OF z])
    with props that(1) show False by auto
  qed
  have sle: "?r \<le>s 30 \<longleftrightarrow> drop_bit 30 penta = 0"
    using mono [of 0 30] mono [of 5 30] mono [of 10 30] mono [of 15 30] mono [of 20 30]
      mono [of 25 30]
    by (auto simp: word_sle_eq)
  show ?thesis using loop props least sle by blast
qed

lemma cipher_tag_cases:
  fixes cipher :: jInt
  assumes "drop_bit 30 cipher \<noteq> 0"
  obtains "drop_bit 30 cipher = 1" | "drop_bit 30 cipher = 2" | "drop_bit 30 cipher = 3"
proof -
  let ?tag = "drop_bit 30 cipher"
  have "unat ?tag = unat cipher div 2 ^ 30"
    by (simp only: unat_drop_bit_eq) (simp add: drop_bit_eq_div)
  moreover have "unat cipher < 2 ^ 32" using unsigned_less [of cipher] by simp
  ultimately have "unat ?tag < 4" by simp
  moreover have "unat ?tag \<noteq> 0" using assms by (simp add: unat_eq_0)
  ultimately have "unat ?tag = 1 \<or> unat ?tag = 2 \<or> unat ?tag = 3" by linarith
  then have "?tag = 1 \<or> ?tag = 2 \<or> ?tag = 3"
    by (auto simp: word_unat_eq_iff)
  then show ?thesis using that by blast
qed

lemma cipher_split:
  fixes cipher :: jInt
  shows "take_bit 30 cipher + push_bit 30 (drop_bit 30 cipher) = cipher"
  using bits_ident [of 30 cipher] by (simp add: add.commute)

lemma low30_of_cipher:
  fixes cipher :: jInt and hi :: jLong
  shows "take_bit 30 (ucast (take_bit 30 (ucast cipher :: jLong) + push_bit 30 hi) :: jInt)
    = take_bit 30 cipher"
proof -
  have "take_bit 30 (ucast (take_bit 30 (ucast cipher :: jLong) + push_bit 30 hi) :: jInt)
      = ucast (take_bit 30 (take_bit 30 (ucast cipher :: jLong) + push_bit 30 hi))"
    by (simp only: ucast_low30)
  also have "\<dots> = ucast (take_bit 30 (ucast cipher :: jLong))"
    by (simp only: take_low_high)
  also have "\<dots> = take_bit 30 (ucast (ucast cipher :: jLong) :: jInt)"
    by (simp only: ucast_low30)
  also have "\<dots> = take_bit 30 cipher"
    by (simp only: low30_ucast_ucast')
  finally show ?thesis .
qed

lemma decode_encode_nonzero_tag:
  assumes "drop_bit 30 cipher \<noteq> 0"
  shows "\<exists>penta plen. decodeCipher codec_tables cipher = Inr penta \<and>
     plen_loop penta 0 = Some plen \<and> 5 dvd unat plen \<and>
     drop_bit (unat plen) penta = 0 \<and>
     (\<forall>k<unat plen. 5 dvd k \<longrightarrow> drop_bit k penta \<noteq> 0) \<and>
     encodePenta codec_tables penta plen = cipher"
proof -
  let ?low = "take_bit 30 (ucast cipher :: jLong)"
  have dec: "decodeCipher codec_tables cipher =
      (if drop_bit 30 cipher = 1 then Inr ?low
       else if drop_bit 30 cipher = 2 then Inr (?low + push_bit 30 28)
       else Inr (?low + push_bit 30 29))"
    if "drop_bit 30 cipher = 1 \<or> drop_bit 30 cipher = 2 \<or> drop_bit 30 cipher = 3"
  proof -
    have "decodeCipher codec_tables cipher =
        decodeCipher codec_tables (take_bit 30 cipher + push_bit 30 (drop_bit 30 cipher))"
      by (simp only: cipher_split)
    then show ?thesis
      unfolding decodeCipher_tagged using that by (auto simp: slash_dollar)
  qed
  have enc_high: "encodePenta codec_tables (?low + push_bit 30 hi) 35
      = take_bit 30 cipher + push_bit 30 tg"
    if "hi = 28 \<and> tg = 2 \<or> hi = 29 \<and> tg = 3" for hi :: jLong and tg :: jInt
  proof -
    have d30: "drop_bit 30 (?low + push_bit 30 hi) = hi"
      using that by (auto simp: drop_low_high)
    then have "drop_bit 5 (drop_bit 30 (?low + push_bit 30 hi)) = 0"
      using that by auto
    then have small: "drop_bit 35 (?low + push_bit 30 hi) = 0"
      by (simp add: drop_bit_drop_bit)
    have "\<not> (35 :: jInt) \<le>s 30" by (simp add: word_sle_eq)
    from encodePenta_high [OF this small] that show ?thesis
      unfolding d30 low30_of_cipher by auto
  qed
  from assms show ?thesis
  proof (cases rule: cipher_tag_cases)
    case 1
    have z: "drop_bit 30 ?low = 0" by (simp add: drop_bit_take_bit)
    then have "drop_bit 35 ?low = 0" by (rule drop_bit_zero_mono) simp
    from plen_loop_min [OF this] obtain plen where
      loop: "plen_loop ?low 0 = Some plen" and five: "5 dvd unat plen"
      and fits: "drop_bit (unat plen) ?low = 0"
      and least: "\<forall>k<unat plen. 5 dvd k \<longrightarrow> drop_bit k ?low \<noteq> 0"
      and sle: "plen \<le>s 30 \<longleftrightarrow> drop_bit 30 ?low = 0"
      by blast
    have "plen \<le>s 30" using sle z by simp
    then have "encodePenta codec_tables ?low plen = take_bit 30 (ucast ?low) + push_bit 30 1"
      using z by (rule encodePenta_tag1)
    also have "take_bit 30 (ucast ?low :: jInt) = take_bit 30 cipher"
      using low30_of_cipher [of cipher 0] by simp
    also have "take_bit 30 cipher + push_bit 30 1 = cipher"
      using cipher_split [of cipher] 1 by simp
    finally have "encodePenta codec_tables ?low plen = cipher" .
    moreover have "decodeCipher codec_tables cipher = Inr ?low" using dec 1 by simp
    ultimately show ?thesis using loop five fits least by blast
  next
    case 2
    let ?penta = "?low + push_bit 30 28"
    have d30: "drop_bit 30 ?penta = 28" by (simp only: drop_low_high) simp
    then have "drop_bit 5 (drop_bit 30 ?penta) = 0" by simp
    then have small: "drop_bit 35 ?penta = 0" by (simp add: drop_bit_drop_bit)
    have loop: "plen_loop ?penta 0 = Some 35"
      using small d30 by (intro plen_loop_35) simp_all
    from plen_loop_min [OF small] loop
    have five: "5 dvd unat (35 :: jInt)" and fits: "drop_bit (unat (35 :: jInt)) ?penta = 0"
      and least: "\<forall>k<unat (35 :: jInt). 5 dvd k \<longrightarrow> drop_bit k ?penta \<noteq> 0"
      by auto
    have "encodePenta codec_tables ?penta 35 = take_bit 30 cipher + push_bit 30 2"
      by (rule enc_high) simp
    also have "\<dots> = cipher" using cipher_split [of cipher] 2 by simp
    finally have "encodePenta codec_tables ?penta 35 = cipher" .
    moreover have "decodeCipher codec_tables cipher = Inr ?penta" using dec 2 by simp
    ultimately show ?thesis using loop five fits least by blast
  next
    case 3
    let ?penta = "?low + push_bit 30 29"
    have d30: "drop_bit 30 ?penta = 29" by (simp only: drop_low_high) simp
    then have "drop_bit 5 (drop_bit 30 ?penta) = 0" by simp
    then have small: "drop_bit 35 ?penta = 0" by (simp add: drop_bit_drop_bit)
    have loop: "plen_loop ?penta 0 = Some 35"
      using small d30 by (intro plen_loop_35) simp_all
    from plen_loop_min [OF small] loop
    have five: "5 dvd unat (35 :: jInt)" and fits: "drop_bit (unat (35 :: jInt)) ?penta = 0"
      and least: "\<forall>k<unat (35 :: jInt). 5 dvd k \<longrightarrow> drop_bit k ?penta \<noteq> 0"
      by auto
    have "encodePenta codec_tables ?penta 35 = take_bit 30 cipher + push_bit 30 3"
      by (rule enc_high) simp
    also have "\<dots> = cipher" using cipher_split [of cipher] 3 by simp
    finally have "encodePenta codec_tables ?penta 35 = cipher" .
    moreover have "decodeCipher codec_tables cipher = Inr ?penta" using dec 3 by simp
    ultimately show ?thesis using loop five fits least by blast
  qed
qed

lemma decodeCipher_tag0:
  assumes "drop_bit 30 cipher = 0"
  shows "decodeCipher t cipher = Inl IllegalArgument"
  using assms by (simp add: decodeCipher_def)

subsection \<open>The penta tiers of the wire format\<close>

lemma unat_add_le:
  fixes a b :: "'a::len word"
  shows "unat (a + b) \<le> unat a + unat b"
  by (simp add: unat_word_ariths)

lemma unat_push_bit_le:
  fixes a :: "'a::len word"
  shows "unat (push_bit n a) \<le> unat a * 2 ^ n"
proof -
  have "unat (push_bit n a) = take_bit LENGTH('a) (push_bit n (unat a))"
    by (simp add: unsigned_push_bit_eq)
  also have "\<dots> \<le> push_bit n (unat a)" by (rule take_bit_nat_less_eq_self)
  finally show ?thesis by (simp add: push_bit_eq_mult)
qed

lemma unat_and_le:
  fixes a m :: "'a::len word"
  shows "unat (a AND m) \<le> unat m"
  by (rule word_and_le1 [THEN word_le_nat_alt [THEN iffD1]])

lemma unat_ucast_le:
  fixes w :: "'a::len word"
  shows "unat (ucast w :: 'b::len word) \<le> unat w"
  by (simp add: unsigned_ucast_eq take_bit_nat_less_eq_self)

lemma unat_byte: "unat (b :: jByte) \<le> 255"
proof -
  have "unat b < 2 ^ LENGTH(8)" by (rule unsigned_less)
  then show ?thesis by simp
qed

lemma unat_short: "unat (sh :: jChar) \<le> 65535"
proof -
  have "unat sh < 2 ^ LENGTH(16)" by (rule unsigned_less)
  then show ?thesis by simp
qed

lemma unat_scast_small:
  fixes x :: jInt
  assumes "unat x < 2 ^ 31"
  shows "unat (scast x :: jLong) = unat x"
proof -
  have "unat x < 2 ^ 64" using assms by (rule less_trans) simp
  moreover have "(scast x :: jLong) = ucast x" using scast_small [OF assms] by simp
  ultimately show ?thesis
    by (simp add: unsigned_ucast_eq take_bit_nat_eq_self)
qed

lemma scast_below_30:
  fixes x :: jInt
  assumes "unat x < 2 ^ 30"
  shows "drop_bit 30 (scast x :: jLong) = 0"
proof -
  have "unat x < 2 ^ 31" using assms by (rule less_trans) simp
  from unat_scast_small [OF this] assms show ?thesis
    by (simp only: drop_bit_zero_unat)
qed

lemma tier15:
  fixes b b1 :: jByte
  shows "drop_bit 30 (scast (push_bit 8 (ucast b :: jInt) + ucast b1) :: jLong) = 0"
proof (rule scast_below_30)
  have "unat (push_bit 8 (ucast b :: jInt) + ucast b1)
      \<le> unat (push_bit 8 (ucast b :: jInt)) + unat (ucast b1 :: jInt)"
    by (rule unat_add_le)
  also have "\<dots> \<le> unat (ucast b :: jInt) * 2 ^ 8 + unat (ucast b1 :: jInt)"
    by (intro add_mono unat_push_bit_le order_refl)
  also have "\<dots> \<le> 255 * 2 ^ 8 + 255"
    by (intro add_mono mult_right_mono order_trans [OF unat_ucast_le unat_byte]) simp
  finally show "unat (push_bit 8 (ucast b :: jInt) + ucast b1) < 2 ^ 30" by simp
qed

lemma tier30:
  fixes b b1 :: jByte and sh :: jChar
  shows "drop_bit 30 (scast (push_bit 24 ((ucast b :: jInt) AND 0x3F)
    + push_bit 16 (ucast b1) + ucast sh) :: jLong) = 0"
proof (rule scast_below_30)
  let ?x = "push_bit 24 ((ucast b :: jInt) AND 0x3F)"
  let ?y = "push_bit 16 (ucast b1 :: jInt)"
  let ?z = "ucast sh :: jInt"
  have "unat (?x + ?y + ?z) \<le> unat (?x + ?y) + unat ?z" by (rule unat_add_le)
  also have "\<dots> \<le> unat ?x + unat ?y + unat ?z"
    by (intro add_mono unat_add_le order_refl)
  also have "\<dots> \<le> unat ((ucast b :: jInt) AND 0x3F) * 2 ^ 24
      + unat (ucast b1 :: jInt) * 2 ^ 16 + unat ?z"
    by (intro add_mono unat_push_bit_le order_refl)
  also have "\<dots> \<le> 63 * 2 ^ 24 + 255 * 2 ^ 16 + 65535"
  proof (intro add_mono mult_right_mono)
    show "unat ((ucast b :: jInt) AND 0x3F) \<le> 63"
      using unat_and_le [of "ucast b :: jInt" "0x3F"] by simp
    show "unat (ucast b1 :: jInt) \<le> 255" by (rule order_trans [OF unat_ucast_le unat_byte])
    show "unat ?z \<le> 65535" by (rule order_trans [OF unat_ucast_le unat_short])
  qed simp_all
  finally show "unat (?x + ?y + ?z) < 2 ^ 30" by simp
qed

lemma tier20:
  fixes b :: jByte and sh :: jChar
  shows "drop_bit 30 (scast (push_bit 16 ((ucast b :: jInt) AND 0x0F) + ucast sh) :: jLong) = 0"
proof (rule scast_below_30)
  let ?x = "push_bit 16 ((ucast b :: jInt) AND 0x0F)"
  let ?z = "ucast sh :: jInt"
  have "unat (?x + ?z) \<le> unat ?x + unat ?z" by (rule unat_add_le)
  also have "\<dots> \<le> unat ((ucast b :: jInt) AND 0x0F) * 2 ^ 16 + unat ?z"
    by (intro add_mono unat_push_bit_le order_refl)
  also have "\<dots> \<le> 15 * 2 ^ 16 + 65535"
  proof (intro add_mono mult_right_mono)
    show "unat ((ucast b :: jInt) AND 0x0F) \<le> 15"
      using unat_and_le [of "ucast b :: jInt" "0x0F"] by simp
    show "unat ?z \<le> 65535" by (rule order_trans [OF unat_ucast_le unat_short])
  qed simp_all
  finally show "unat (?x + ?z) < 2 ^ 30" by simp
qed

lemma tier35:
  fixes b :: jByte and w :: jInt
  shows "drop_bit 35 (push_bit 32 (scast ((ucast b :: jInt) AND 0x07))
    + (scast w AND 0xFFFFFFFF) :: jLong) = 0"
proof -
  let ?h = "(ucast b :: jInt) AND 0x07"
  let ?x = "push_bit 32 (scast ?h) :: jLong"
  let ?z = "scast w AND 0xFFFFFFFF :: jLong"
  have h: "unat ?h \<le> 7" using unat_and_le [of "ucast b :: jInt" "0x07"] by simp
  then have "unat ?h < 2 ^ 31" by simp
  then have sh: "unat (scast ?h :: jLong) = unat ?h" by (rule unat_scast_small)
  have "unat (?x + ?z) \<le> unat ?x + unat ?z" by (rule unat_add_le)
  also have "\<dots> \<le> unat (scast ?h :: jLong) * 2 ^ 32 + unat ?z"
    by (intro add_mono unat_push_bit_le order_refl)
  also have "\<dots> \<le> 7 * 2 ^ 32 + 4294967295"
  proof (intro add_mono mult_right_mono)
    show "unat (scast ?h :: jLong) \<le> 7" using h sh by simp
    show "unat ?z \<le> 4294967295"
      using unat_and_le [of "scast w :: jLong" "0xFFFFFFFF"] by simp
  qed simp_all
  finally have "unat (?x + ?z) < 2 ^ 35" by simp
  then show ?thesis by (simp only: drop_bit_zero_unat)
qed

lemma penta_to_cipher_small:
  assumes "drop_bit 30 penta = 0"
  shows "\<exists>c. c \<noteq> 0 \<and> penta_to_cipher ts t penta st = Some (Inr c, st)"
proof -
  from plen_loop_30 [OF assms] obtain plen where
    loop: "plen_loop penta 0 = Some plen" and sle: "plen \<le>s 30" by blast
  have enc: "encodePenta t penta plen = take_bit 30 (ucast penta) + push_bit 30 1"
    using sle assms by (rule encodePenta_tag1)
  have "take_bit 30 (ucast penta :: jInt) + push_bit 30 1 \<noteq> 0"
    by (rule tagged_nonzero) simp
  then show ?thesis by (simp add: penta_to_cipher_def loop enc)
qed

lemma penta_to_cipher_35:
  assumes small: "drop_bit 35 penta = 0" and big: "drop_bit 30 penta \<noteq> 0"
  shows "if drop_bit 30 penta = 28 \<or> drop_bit 30 penta = 29
    then \<exists>c. c \<noteq> 0 \<and> penta_to_cipher ts codec_tables penta st = Some (Inr c, st)
    else penta_to_cipher ts codec_tables penta st =
      (case ts penta of
         None \<Rightarrow> None
       | Some (Inl e) \<Rightarrow> Some (Inl e, st)
       | Some (Inr str) \<Rightarrow> Some (Inr 0, st\<lparr>result := Some str\<rparr>))"
proof -
  have loop: "plen_loop penta 0 = Some 35" using small big by (rule plen_loop_35)
  have "\<not> (35 :: jInt) \<le>s 30" by (simp add: word_sle_eq)
  note enc = encodePenta_high [OF this small]
  have nz2: "take_bit 30 (ucast penta :: jInt) + push_bit 30 2 \<noteq> 0"
    and nz3: "take_bit 30 (ucast penta :: jInt) + push_bit 30 3 \<noteq> 0"
    by (rule tagged_nonzero, simp)+
  show ?thesis
  proof (cases "drop_bit 30 penta = 28 \<or> drop_bit 30 penta = 29")
    case True
    then have "encodePenta codec_tables penta 35 \<noteq> 0"
      unfolding enc using nz2 nz3 by auto
    then show ?thesis using True by (simp add: penta_to_cipher_def loop)
  next
    case False
    then have "encodePenta codec_tables penta 35 = 0" unfolding enc by simp
    then show ?thesis using False by (simp add: penta_to_cipher_def loop)
  qed
qed

lemmas stmt_defs = then_do_def from_in_def throw_def return_val_def set_result_def

subsection \<open>Runs of \<^verbatim>\<open>readSymbol\<close> on the queue source\<close>

lemma letter_A_char: "characters codec_tables ! 1 = 65"
proof -
  have "eligible 65" by (simp add: eligible_def)
  from eligible_char [OF this] show ?thesis by (simp add: letter_entries)
qed

lemma seven_letters:
  "toString codec_tables 0x42108421 = Some (Inr [65, 65, 65, 65, 65, 65, 65])"
proof -
  let ?s = "[65, 65, 65, 65, 65, 65, 65] :: jString"
  have el: "\<forall>ch\<in>set ?s. eligible (unat ch)" by (simp add: eligible_def)
  have b: "packed_plen codec_tables ?s = 35" by (simp add: letter_entries)
  have v: "packed_penta codec_tables ?s = 0x42108421" by (simp add: letter_entries)
  have "take_bit (packed_plen codec_tables ?s) (unat (0x42108421 :: jLong))
      = packed_penta codec_tables ?s"
    unfolding b v by (simp add: take_bit_eq_mod)
  from penta_to_string_packed [OF el this]
  have "penta_to_string codec_tables 0x42108421 35 = Inr ?s" by (simp only: b)
  moreover have "plen_loop 0x42108421 0 = Some 35"
    by (simp add: plen_loop_small drop_bit_eq_div)
  ultimately show ?thesis by (simp add: toString_def)
qed

lemmas run_defs = readSymbol_def stmt_defs queue_input_def queue_short_def queue_int_def
  penta_to_cipher_def plen_loop_small encodePenta_def word_sle_eq slash_dollar
  drop_bit_eq_div

lemma run_fallback:
  "readSymbol queue_input 0xFFFFFFFFC0000000 (toString codec_tables) codec_tables
     \<lparr>src = [Byte 0xF0, Byte 0x42, Byte 0x10, Byte 0x84, Byte 0x21], buffer = [],
      result = None\<rparr>
   = Some (Inr 0, \<lparr>src = [], buffer = [], result = Some [65, 65, 65, 65, 65, 65, 65]\<rparr>)"
  by (simp add: run_defs seven_letters)

lemma run_tiers:
  "readSymbol queue_input 0xFFFFFFFFC0000000 (toString codec_tables) codec_tables
     \<lparr>src = [Byte 0x24, Byte 0x8D], buffer = [], result = None\<rparr>
   = Some (Inr 0x4000248D, \<lparr>src = [], buffer = [], result = None\<rparr>)"
  "readSymbol queue_input 0xFFFFFFFFC0000000 (toString codec_tables) codec_tables
     \<lparr>src = [Byte 0x80, Byte 0, Byte 0x24, Byte 0x8D], buffer = [], result = None\<rparr>
   = Some (Inr 0x4000248D, \<lparr>src = [], buffer = [], result = None\<rparr>)"
  "readSymbol queue_input 0xFFFFFFFFC0000000 (toString codec_tables) codec_tables
     \<lparr>src = [Byte 0xE0, Byte 0x24, Byte 0x8D], buffer = [], result = None\<rparr>
   = Some (Inr 0x4000248D, \<lparr>src = [], buffer = [], result = None\<rparr>)"
  "readSymbol queue_input 0xFFFFFFFFC0000000 (toString codec_tables) codec_tables
     \<lparr>src = [Byte 0xFE], buffer = [], result = None\<rparr>
   = Some (Inr 0x40000000, \<lparr>src = [], buffer = [], result = None\<rparr>)"
  "readSymbol queue_input 0xFFFFFFFFC0000000 (toString codec_tables) codec_tables
     \<lparr>src = [Byte 0xF7, Byte 0x02, Byte 0x10, Byte 0x84, Byte 0x21], buffer = [],
      result = None\<rparr>
   = Some (Inr 0x82108421, \<lparr>src = [], buffer = [], result = None\<rparr>)"
  by (simp_all add: run_defs plen_loop.simps [of 0 0])

subsection \<open>What a statement of \<^verbatim>\<open>readSymbol\<close> leaves alone\<close>










text \<open>
  C4: \<^verbatim>\<open>initSymbolCodec\<close> should succeed, and afterwards the 93 eligible characters
  are in bijection with the pentas 1 to 29 and 960 to 1023. What the code does: its final
  check finds the counter at \<open>0x400\<close>, so no internal error is raised, but the function
  then ends with no \<^verbatim>\<open>return\<close> statement and hands back no value; the tables are as
  claimed: every eligible \<open>c\<close> has \<open>characters[pentas[c]] = c\<close> and a length of 5 or 10,
  every other \<open>c\<close> below 128 has length 64 and penta 0, and the pentas 0, 30 and 31
  belong to no character.
\<close>

theorem init_tables_bijection:
  "initSymbolCodec static_tables = (None, codec_tables) \<and>
   fst (initSymbolCodec static_tables) \<noteq> Some (Inl InternalError) \<and>
   card {c. eligible c} = 93 \<and>
   bij_betw (\<lambda>c. unat (pentas codec_tables ! c)) {c. eligible c} ({1..29} \<union> {960..1023}) \<and>
   (\<forall>c<128. eligible c \<longrightarrow>
      characters codec_tables ! unat (pentas codec_tables ! c) = of_nat c \<and>
      (plength codec_tables ! c = 5 \<or> plength codec_tables ! c = 10)) \<and>
   (\<forall>c<128. \<not> eligible c \<longrightarrow>
      plength codec_tables ! c = 64 \<and> pentas codec_tables ! c = 0) \<and>
   (\<forall>c<128. eligible c \<longrightarrow>
      pentas codec_tables ! c \<noteq> 0 \<and> pentas codec_tables ! c \<noteq> 30 \<and>
      pentas codec_tables ! c \<noteq> 31) \<and>
   characters codec_tables ! 0 = 0 \<and> characters codec_tables ! 30 = 0 \<and>
   characters codec_tables ! 31 = 0"
proof -
  let ?f = "\<lambda>c. unat (pentas codec_tables ! c)"
  have inv: "unat (characters codec_tables ! ?f c) = c" if "eligible c" for c
    using eligible_char [OF that] that by (simp add: eligible_def unat_jChar_of_nat)
  have inj: "inj_on ?f {c. eligible c}"
    by (rule inj_on_inverseI [where g = "\<lambda>p. unat (characters codec_tables ! p)"])
      (simp add: inv)
  have sub: "?f ` {c. eligible c} \<subseteq> {1..29} \<union> {960..1023}"
  proof (rule image_subsetI)
    fix c assume "c \<in> {c. eligible c}"
    then have "eligible c" by simp
    from eligible_char [OF this] show "?f c \<in> {1..29} \<union> {960..1023}" by auto
  qed
  have "card (?f ` {c. eligible c}) = 93"
    using inj by (simp add: card_image card_eligible)
  moreover have "card ({1..29} \<union> {960..1023} :: nat set) = 93"
    by (simp add: card_Un_disjoint)
  ultimately have "?f ` {c. eligible c} = {1..29} \<union> {960..1023}"
    using sub by (intro card_subset_eq) simp_all
  with inj have bij: "bij_betw ?f {c. eligible c} ({1..29} \<union> {960..1023})"
    by (simp add: bij_betw_def)
  have nz: "pentas codec_tables ! c \<noteq> 0 \<and> pentas codec_tables ! c \<noteq> 30 \<and>
      pentas codec_tables ! c \<noteq> 31" if "eligible c" for c
    using eligible_char [OF that] by auto
  have len: "plength codec_tables ! c = 5 \<or> plength codec_tables ! c = 10"
    if "eligible c" for c
    using eligible_char [OF that] by blast
  have chr: "characters codec_tables ! unat (pentas codec_tables ! c) = of_nat c"
    if "eligible c" for c
    using eligible_char [OF that] by blast
  show ?thesis
    using init_returns card_eligible bij chr len ineligible_char nz unused_pentas
    by simp
qed

text \<open>The character \<^verbatim>\<open>'*'\<close> (42) is eligible, the apostrophe (39) is not.\<close>

theorem init_tables_bijection_witness:
  "eligible 42 \<and> characters codec_tables ! unat (pentas codec_tables ! 42) = 42 \<and>
   plength codec_tables ! 42 = 10 \<and> pentas codec_tables ! 42 = 968 \<and>
   \<not> eligible 39 \<and> plength codec_tables ! 39 = 64 \<and> pentas codec_tables ! 39 = 0"
proof -
  have e: "eligible 42" and n: "\<not> eligible 39" by (simp_all add: eligible_def)
  have p: "pentas codec_tables ! 42 = 968" "plength codec_tables ! 42 \<noteq> 5"
    by (simp_all add: star_entries)
  have a: "\<forall>c<128. eligible c \<longrightarrow>
      characters codec_tables ! unat (pentas codec_tables ! c) = of_nat c \<and>
      (plength codec_tables ! c = 5 \<or> plength codec_tables ! c = 10)"
    and b: "\<forall>c<128. \<not> eligible c \<longrightarrow>
      plength codec_tables ! c = 64 \<and> pentas codec_tables ! c = 0"
    using init_tables_bijection by blast+
  from a [rule_format, of 42] b [rule_format, of 39] e n p show ?thesis by simp
qed

subsection \<open>The cipher of a penta\<close>

text \<open>
  C3: for every \<open>penta\<close> and \<open>plen\<close> with \<open>plen \<le> 35\<close> and \<open>penta\<close> in the low
  \<open>plen\<close> bits, \<^verbatim>\<open>encodePenta\<close> returns \<open>penta | 0x40000000\<close> when \<open>plen \<le> 30\<close>;
  \<open>(penta & 0x3FFFFFFF) | 0x80000000\<close> when \<open>plen > 30\<close> and the high bits
  \<open>penta >> 30\<close> are 28, the penta of \<^verbatim>\<open>'/'\<close>; \<open>(penta & 0x3FFFFFFF) | 0xC0000000\<close>
  when they are 29, the penta of \<^verbatim>\<open>'$'\<close>; and 0 otherwise. A match of the high bits
  against 28 or 29 implies \<open>plen = 35\<close>.
\<close>

theorem encodePenta_cases:
  fixes penta :: jLong and plen :: jInt
  assumes "sint plen \<le> 35" and "unat penta < 2 ^ nat (sint plen)"
  shows "pentas codec_tables ! 47 = 28 \<and> pentas codec_tables ! 36 = 29 \<and>
    (sint plen \<le> 30 \<longrightarrow>
       encodePenta codec_tables penta plen = ucast penta OR 0x40000000) \<and>
    (30 < sint plen \<and> drop_bit 30 penta = 28 \<longrightarrow>
       encodePenta codec_tables penta plen = (ucast penta AND 0x3FFFFFFF) OR 0x80000000) \<and>
    (30 < sint plen \<and> drop_bit 30 penta = 29 \<longrightarrow>
       encodePenta codec_tables penta plen = (ucast penta AND 0x3FFFFFFF) OR 0xC0000000) \<and>
    (30 < sint plen \<and> drop_bit 30 penta \<noteq> 28 \<and> drop_bit 30 penta \<noteq> 29 \<longrightarrow>
       encodePenta codec_tables penta plen = 0) \<and>
    (drop_bit 30 penta = 28 \<or> drop_bit 30 penta = 29 \<longrightarrow> sint plen = 35)"
proof -
  have "(2::nat) ^ nat (sint plen) \<le> 2 ^ 35"
    using assms(1) by (intro power_increasing) auto
  then have "unat penta < 2 ^ 35" using assms(2) by linarith
  then have small: "drop_bit 35 penta = 0" by (simp only: drop_bit_zero_unat)
  have low: "encodePenta codec_tables penta plen = ucast penta OR 0x40000000"
    if "sint plen \<le> 30"
  proof -
    have "(2::nat) ^ nat (sint plen) \<le> 2 ^ 30"
      using that by (intro power_increasing) auto
    then have "unat penta < 2 ^ 30" using assms(2) by linarith
    then have z: "drop_bit 30 penta = 0" by (simp only: drop_bit_zero_unat)
    have "encodePenta codec_tables penta plen = take_bit 30 (ucast penta) + push_bit 30 1"
      using that z by (intro encodePenta_tag1) (simp_all add: word_sle_eq)
    also have "\<dots> = take_bit 30 (ucast penta) OR push_bit 30 1" by (rule low_or_high)
    also have "\<dots> = ucast penta OR 0x40000000"
      using ucast_small_penta [OF z] by (simp add: push_bit_eq_mult)
    finally show ?thesis .
  qed
  have high: "encodePenta codec_tables penta plen =
      (if drop_bit 30 penta = 28 then take_bit 30 (ucast penta) OR push_bit 30 2
       else if drop_bit 30 penta = 29 then take_bit 30 (ucast penta) OR push_bit 30 3
       else 0)"
    if "30 < sint plen"
  proof -
    have "\<not> plen \<le>s 30" using that by (simp add: word_sle_eq)
    from encodePenta_high [OF this small] show ?thesis by (simp only: low_or_high)
  qed
  have width: "sint plen = 35" if "drop_bit 30 penta = 28 \<or> drop_bit 30 penta = 29"
  proof (rule ccontr)
    assume "sint plen \<noteq> 35"
    then have "sint plen \<le> 34" using assms(1) by simp
    then have "(2::nat) ^ nat (sint plen) \<le> 2 ^ 34"
      by (intro power_increasing) auto
    then have "unat penta < 2 ^ 34" using assms(2) by linarith
    then have "drop_bit 34 penta = 0" by (simp only: drop_bit_zero_unat)
    then have d4: "drop_bit 4 (drop_bit 30 penta) = 0" by (simp add: drop_bit_drop_bit)
    from that show False
    proof
      assume "drop_bit 30 penta = 28"
      with d4 have "drop_bit 4 (28 :: jLong) = 0" by (simp only:)
      then show False by simp
    next
      assume "drop_bit 30 penta = 29"
      with d4 have "drop_bit 4 (29 :: jLong) = 0" by (simp only:)
      then show False by simp
    qed
  qed
  show ?thesis
    using low high width
    by (simp add: slash_dollar low30_and push_bit_eq_mult)
qed

text \<open>The symbols \<^verbatim>\<open>IBM\<close>, \<^verbatim>\<open>/AAAAAA\<close>, \<^verbatim>\<open>$AAAAAA\<close> and \<^verbatim>\<open>AAAAAAA\<close>.\<close>

theorem encodePenta_cases_witness:
  "encodePenta codec_tables 0x248D 15 = 0x4000248D \<and>
   encodePenta codec_tables 0x702108421 35 = 0x82108421 \<and>
   encodePenta codec_tables 0x742108421 35 = 0xC2108421 \<and>
   encodePenta codec_tables 0x42108421 35 = 0"
  using encodePenta_cases [of 15 "0x248D"] encodePenta_cases [of 35 "0x702108421"]
    encodePenta_cases [of 35 "0x742108421"] encodePenta_cases [of 35 "0x42108421"]
  by (simp add: drop_bit_eq_div)

subsection \<open>The wildcard cipher\<close>

text \<open>
  C9: after initialisation \<^verbatim>\<open>WILDCARD_CIPHER\<close> should be \<^verbatim>\<open>encode("*")\<close> over the
  initialised tables, a non-zero value. The static initialiser computes it over the
  zero-initialised tables instead: it is \<open>0x40000000\<close>, the cipher of the empty symbol,
  and not \<open>0x400003C8\<close>, the cipher of \<^verbatim>\<open>"*"\<close>.
\<close>

theorem wildcard_cipher_static:
  "WILDCARD_CIPHER = 0x40000000 \<and> encode codec_tables (Some [42]) = 0x400003C8 \<and>
   WILDCARD_CIPHER \<noteq> encode codec_tables (Some [42])"
proof -
  have w: "WILDCARD_CIPHER = 0x40000000"
    by (simp add: WILDCARD_CIPHER_def encode_def static_tables_def penta_length_def
        encodePenta_def word_sle_eq word_sless_alt)
  have e: "encode codec_tables (Some [42]) = 0x400003C8"
    by (simp add: encode_def encodePenta_def word_sle_eq word_sless_alt star_entries)
  show ?thesis unfolding w e by simp
qed

subsection \<open>Inputs that \<^verbatim>\<open>encode\<close> does not cipher\<close>

text \<open>
  C5: \<^verbatim>\<open>encode\<close> returns 0 for the null input, for every input longer than 7
  characters, and for every input with a character that is not eligible: a code point of
  128 or more, the apostrophe, the backtick, or any other character of table length 64.
\<close>

theorem encode_returns_zero:
  "encode t None = 0 \<and>
   (7 < length s \<longrightarrow> encode t (Some s) = 0) \<and>
   ((\<exists>ch\<in>set s. 128 \<le> unat ch \<or> plength codec_tables ! unat ch = 64) \<longrightarrow>
      encode codec_tables (Some s) = 0) \<and>
   plength codec_tables ! 39 = 64 \<and> plength codec_tables ! 96 = 64"
proof -
  have bad: "encode codec_tables (Some s) = 0"
    if "ch \<in> set s" and "128 \<le> unat ch \<or> plength codec_tables ! unat ch = 64" for ch
  proof (cases "7 < length s \<or> (\<exists>ch\<in>set s. 128 \<le> unat ch)")
    case True
    then show ?thesis
    proof
      assume "7 < length s"
      then show ?thesis by (simp add: encode_def)
    next
      assume "\<exists>ch\<in>set s. 128 \<le> unat ch"
      then have "encode_loop codec_tables s 0 0 = None" by (simp only: encode_loop_None)
      then show ?thesis by (simp add: encode_def)
    qed
  next
    case False
    then have short: "length s \<le> 7" and ascii: "\<forall>ch\<in>set s. unat ch < 128"
      by (auto simp: not_le)
    then have "encode_loop codec_tables s 0 0 \<noteq> None"
      by (auto simp: encode_loop_None)
    then obtain penta plen where loop: "encode_loop codec_tables s 0 0 = Some (penta, plen)"
      by auto
    let ?n = "packed_plen codec_tables s"
    have plen: "plen = of_nat ?n" using encode_loop_plen [OF loop] by simp
    have "plength codec_tables ! unat ch = 64" using that ascii by auto
    then have "64 \<le> ?n" using sum_lengths_ge [OF that(1)] by simp
    moreover have "?n \<le> 448" using sum_lengths_le [OF ascii] short by simp
    ultimately have "35 <s plen"
      unfolding plen by (simp add: word_sless_alt sint_of_nat_small)
    then show ?thesis using short loop by (simp add: encode_def)
  qed
  have "\<not> eligible 39" "\<not> eligible 96" by (simp_all add: eligible_def)
  then have "plength codec_tables ! 39 = 64" "plength codec_tables ! 96 = 64"
    using ineligible_char [of 39] ineligible_char [of 96] by simp_all
  then show ?thesis using bad by (auto simp: encode_def)
qed

text \<open>
  The null input, an input of 8 letters, one with a backtick and one with a code point
  beyond 127.
\<close>

theorem encode_returns_zero_witness:
  "encode codec_tables None = 0 \<and>
   encode codec_tables (Some (jstr ''ABCDEFGH'')) = 0 \<and>
   encode codec_tables (Some (jstr ''A`B'')) = 0 \<and>
   encode codec_tables (Some [65, 0x20AC]) = 0"
proof -
  have "7 < length (jstr ''ABCDEFGH'')" by (simp add: jstr_def)
  moreover have "\<exists>ch\<in>set (jstr ''A`B''). 128 \<le> unat ch \<or> plength codec_tables ! unat ch = 64"
    using encode_returns_zero [of codec_tables "[]"] by (simp add: jstr_def)
  moreover have "\<exists>ch\<in>set [65, 0x20AC :: jChar]. 128 \<le> unat ch \<or> plength codec_tables ! unat ch = 64"
    by simp
  ultimately show ?thesis
    using encode_returns_zero [of codec_tables "jstr ''ABCDEFGH''"]
      encode_returns_zero [of codec_tables "jstr ''A`B''"]
      encode_returns_zero [of codec_tables "[65, 0x20AC]"]
    by blast
qed

subsection \<open>From a string to its cipher and home again\<close>

text \<open>
  C1: for every string \<open>s\<close> of eligible characters whose packed penta takes at most 35
  bits, if \<^verbatim>\<open>encode\<close> returns a cipher other than 0, then \<^verbatim>\<open>decodeCipher\<close> of that
  cipher succeeds and rendering its penta, group by group from the top through
  \<^verbatim>\<open>characters\<close>, gives \<open>s\<close> again.
\<close>

theorem encode_decode_roundtrip:
  assumes el: "\<forall>ch\<in>set s. eligible (unat ch)"
    and le: "packed_plen codec_tables s \<le> 35"
    and nz: "encode codec_tables (Some s) \<noteq> 0"
  shows "\<exists>penta. decodeCipher codec_tables (encode codec_tables (Some s)) = Inr penta \<and>
           toString codec_tables penta = Some (Inr s)"
proof -
  let ?b = "packed_plen codec_tables s"
  let ?v = "packed_penta codec_tables s"
  let ?penta = "of_nat ?v :: jLong"
  let ?plen = "of_nat ?b :: jInt"
  have enc: "encode codec_tables (Some s) = encodePenta codec_tables ?penta ?plen"
    by (rule encode_eligible [OF el le])
  have v: "?v < 2 ^ ?b" by (rule packed_penta_bound [OF el])
  have "(2::nat) ^ ?b \<le> 2 ^ 35" using le by (intro power_increasing) auto
  then have v35: "?v < 2 ^ 35" using v by linarith
  note un = unat_of_nat_jLong [OF v35]
  have small: "drop_bit 35 ?penta = 0"
    using v35 by (simp only: drop_bit_zero_unat un)
  have sint: "sint ?plen = int ?b"
    using le by (intro sint_of_nat_small) simp
  have low: "drop_bit 30 ?penta = 0" if "?plen \<le>s 30"
  proof -
    have "?b \<le> 30" using that sint by (simp add: word_sle_eq)
    then have "(2::nat) ^ ?b \<le> 2 ^ 30" by (intro power_increasing) auto
    then have "?v < 2 ^ 30" using v by linarith
    then show ?thesis by (simp only: drop_bit_zero_unat un)
  qed
  have dec: "decodeCipher codec_tables (encode codec_tables (Some s)) = Inr ?penta"
    unfolding enc using small low nz [unfolded enc] by (rule decode_encodePenta)
  have top: "?b = 0 \<or> 2 ^ (?b - 5) \<le> ?v"
  proof (cases "s = []")
    case True
    then show ?thesis by simp
  next
    case False
    then show ?thesis using packed_penta_top [OF el] by simp
  qed
  have loop: "plen_loop ?penta 0 = Some ?plen"
    using packed_plen_dvd [OF el] le v top by (rule plen_loop_exact)
  have "unat ?plen = ?b" using le by (simp add: unat_of_nat)
  moreover have "take_bit ?b (unat ?penta) = ?v"
    unfolding un using v by (simp add: take_bit_nat_eq_self)
  ultimately have "toString codec_tables ?penta = Some (Inr s)"
    using penta_to_string_packed [OF el, of ?penta] loop by (simp add: toString_def)
  with dec show ?thesis by blast
qed

text \<open>The symbols \<^verbatim>\<open>/AAAAAA\<close> (35 bits) and \<^verbatim>\<open>*\<close> (10 bits).\<close>

theorem encode_decode_roundtrip_witness:
  "decodeCipher codec_tables (encode codec_tables (Some [47, 65, 65, 65, 65, 65, 65]))
     = Inr 0x702108421 \<and>
   toString codec_tables 0x702108421 = Some (Inr [47, 65, 65, 65, 65, 65, 65]) \<and>
   decodeCipher codec_tables (encode codec_tables (Some [42])) = Inr 968 \<and>
   toString codec_tables 968 = Some (Inr [42])"
proof -
  have a: "\<forall>ch\<in>set [47, 65, 65, 65, 65, 65, 65 :: jChar]. eligible (unat ch)"
    and b: "\<forall>ch\<in>set [42 :: jChar]. eligible (unat ch)"
    by (simp_all add: eligible_def)
  have c: "packed_plen codec_tables [47, 65, 65, 65, 65, 65, 65] \<le> 35"
    and d: "packed_plen codec_tables [42] \<le> 35"
    by (simp_all add: letter_entries star_entries)
  have e: "encode codec_tables (Some [47, 65, 65, 65, 65, 65, 65]) \<noteq> 0"
    and f: "encode codec_tables (Some [42]) \<noteq> 0"
    by (simp_all add: encode_star encode_slash_letters)
  have g: "decodeCipher codec_tables 0x82108421 = Inr 0x702108421"
    and h: "decodeCipher codec_tables 0x400003C8 = Inr 968"
    by (simp_all add: decodeCipher_def slash_dollar drop_bit_eq_div)
  from encode_decode_roundtrip [OF a c e] encode_decode_roundtrip [OF b d f]
  show ?thesis by (auto simp: encode_star encode_slash_letters g h)
qed

subsection \<open>From a cipher to its penta and home again\<close>

text \<open>
  C2, as amended: for every 32-bit cipher whose top two bits are not both zero,
  \<^verbatim>\<open>decodeCipher\<close> succeeds, the loop finds a \<open>plen\<close> that is the smallest multiple of
  5 with \<open>penta >> plen = 0\<close>, and \<^verbatim>\<open>encodePenta\<close> of that penta and \<open>plen\<close> returns
  the cipher. For every cipher whose top two bits are both zero, that is 0 to
  \<open>0x3FFFFFFF\<close>, \<^verbatim>\<open>decodeCipher\<close> fails with the illegal-argument error.
\<close>

theorem decode_encode_roundtrip:
  "(drop_bit 30 cipher \<noteq> 0 \<longrightarrow>
      (\<exists>penta plen. decodeCipher codec_tables cipher = Inr penta \<and>
         plen_loop penta 0 = Some plen \<and> 5 dvd unat plen \<and>
         drop_bit (unat plen) penta = 0 \<and>
         (\<forall>k<unat plen. 5 dvd k \<longrightarrow> drop_bit k penta \<noteq> 0) \<and>
         encodePenta codec_tables penta plen = cipher)) \<and>
   (drop_bit 30 cipher = 0 \<longrightarrow> decodeCipher t cipher = Inl IllegalArgument)"
  using decode_encode_nonzero_tag [of cipher] decodeCipher_tag0 [of cipher t] by blast

text \<open>
  The ciphers of \<^verbatim>\<open>IBM\<close> (tag 1) and of \<^verbatim>\<open>/AAAAAA\<close> (tag 2), and the largest
  cipher of tag 0.
\<close>

theorem decode_encode_roundtrip_witness:
  "decodeCipher codec_tables 0x4000248D = Inr 0x248D \<and>
   plen_loop 0x248D 0 = Some 15 \<and>
   encodePenta codec_tables 0x248D 15 = 0x4000248D \<and>
   decodeCipher codec_tables 0x82108421 = Inr 0x702108421 \<and>
   plen_loop 0x702108421 0 = Some 35 \<and>
   encodePenta codec_tables 0x702108421 35 = 0x82108421 \<and>
   decodeCipher codec_tables 0x3FFFFFFF = Inl IllegalArgument"
proof -
  have a: "drop_bit 30 (0x4000248D :: jInt) \<noteq> 0" and b: "drop_bit 30 (0x82108421 :: jInt) \<noteq> 0"
    and c: "drop_bit 30 (0x3FFFFFFF :: jInt) = 0"
    by (simp_all add: drop_bit_eq_div)
  have da: "decodeCipher codec_tables 0x4000248D = Inr 0x248D"
    and db: "decodeCipher codec_tables 0x82108421 = Inr 0x702108421"
    by (simp_all add: decodeCipher_def slash_dollar drop_bit_eq_div)
  have la: "plen_loop 0x248D 0 = Some 15" and lb: "plen_loop 0x702108421 0 = Some 35"
    by (simp_all add: plen_loop_small drop_bit_eq_div)
  from decode_encode_roundtrip [of "0x4000248D" codec_tables]
    decode_encode_roundtrip [of "0x82108421" codec_tables]
    decode_encode_roundtrip [of "0x3FFFFFFF" codec_tables] a b c
  show ?thesis unfolding da db using la lb by auto
qed

text \<open>
  C2 as stated fails: the cipher 1 is not zero, and \<^verbatim>\<open>decodeCipher\<close> rejects it, as it
  does every cipher below \<open>0x40000000\<close>.
\<close>

theorem decode_small_cipher_fails:
  "(1 :: jInt) \<noteq> 0 \<and> decodeCipher codec_tables 1 = Inl IllegalArgument"
  by (simp add: decodeCipher_def)

subsection \<open>Which penta tiers give a cipher\<close>

text \<open>
  C6, as amended: on the 15-bit, 30-bit and 20-bit tiers (first byte \<open>0x00\<close> to \<open>0xBF\<close>
  or \<open>0xE0\<close> to \<open>0xEF\<close>) and on \<open>0xFE\<close>, whatever payload the source supplies,
  \<^verbatim>\<open>encodePenta\<close> gives a cipher other than 0 and the branch that stores
  \<^verbatim>\<open>toString(penta)\<close> is not taken. On the 35-bit tier (first byte \<open>0xF0\<close> to
  \<open>0xF7\<close>) the cipher is other than 0 exactly when \<open>penta >> 30\<close> is 0, 28 or 29; for
  every other payload \<^verbatim>\<open>readSymbol\<close> stores \<^verbatim>\<open>toString(penta)\<close> in the result
  slot and returns 0.
\<close>

theorem penta_tiers_cipher:
  fixes st :: "'src rs_state"
  assumes first: "readUnsignedByte io (src st) = (Inr b, s1)"
  shows
    "(unat b < 0x80 \<and> readUnsignedByte io s1 = (Inr b1, s2) \<longrightarrow>
        (\<exists>c. c \<noteq> 0 \<and>
           readSymbol io vc ts codec_tables st = Some (Inr c, st\<lparr>src := s2\<rparr>))) \<and>
     (0x80 \<le> unat b \<and> unat b < 0xC0 \<and> readUnsignedByte io s1 = (Inr b1, s2) \<and>
      readUnsignedShort io s2 = (Inr sh, s3) \<longrightarrow>
        (\<exists>c. c \<noteq> 0 \<and>
           readSymbol io vc ts codec_tables st = Some (Inr c, st\<lparr>src := s3\<rparr>))) \<and>
     (0xE0 \<le> unat b \<and> unat b < 0xF0 \<and> readUnsignedShort io s1 = (Inr sh, s2) \<longrightarrow>
        (\<exists>c. c \<noteq> 0 \<and>
           readSymbol io vc ts codec_tables st = Some (Inr c, st\<lparr>src := s2\<rparr>))) \<and>
     (unat b = 0xFE \<longrightarrow>
        readSymbol io vc ts codec_tables st = Some (Inr 0x40000000, st\<lparr>src := s1\<rparr>)) \<and>
     (0xF0 \<le> unat b \<and> unat b < 0xF8 \<and> readInt io s1 = (Inr w, s2) \<longrightarrow>
        (let penta = push_bit 32 (scast ((ucast b :: jInt) AND 0x07))
                       + (scast w AND 0xFFFFFFFF) :: jLong
         in if drop_bit 30 penta = 0 \<or> drop_bit 30 penta = 28 \<or> drop_bit 30 penta = 29
            then \<exists>c. c \<noteq> 0 \<and>
              readSymbol io vc ts codec_tables st = Some (Inr c, st\<lparr>src := s2\<rparr>)
            else readSymbol io vc ts codec_tables st =
              (case ts penta of
                 None \<Rightarrow> None
               | Some (Inl e) \<Rightarrow> Some (Inl e, st\<lparr>src := s2\<rparr>)
               | Some (Inr str) \<Rightarrow> Some (Inr 0, st\<lparr>src := s2, result := Some str\<rparr>))))"
proof -
  have t15: "\<exists>c. c \<noteq> 0 \<and>
      readSymbol io vc ts codec_tables st = Some (Inr c, st\<lparr>src := s2\<rparr>)"
    if "unat b < 0x80" "readUnsignedByte io s1 = (Inr b1, s2)"
  proof -
    from penta_to_cipher_small [OF tier15, of ts codec_tables b b1 "st\<lparr>src := s2\<rparr>"]
    obtain c where "c \<noteq> 0"
      and "penta_to_cipher ts codec_tables
        (scast (push_bit 8 (ucast b :: jInt) + ucast b1)) (st\<lparr>src := s2\<rparr>)
        = Some (Inr c, st\<lparr>src := s2\<rparr>)"
      by blast
    then show ?thesis
      using first that by (simp add: readSymbol_def stmt_defs)
  qed
  have t30: "\<exists>c. c \<noteq> 0 \<and>
      readSymbol io vc ts codec_tables st = Some (Inr c, st\<lparr>src := s3\<rparr>)"
    if "0x80 \<le> unat b" "unat b < 0xC0" "readUnsignedByte io s1 = (Inr b1, s2)"
      "readUnsignedShort io s2 = (Inr sh, s3)"
  proof -
    from penta_to_cipher_small [OF tier30, of ts codec_tables b b1 sh "st\<lparr>src := s3\<rparr>"]
    obtain c where "c \<noteq> 0"
      and "penta_to_cipher ts codec_tables
        (scast (push_bit 24 ((ucast b :: jInt) AND 0x3F) + push_bit 16 (ucast b1) + ucast sh))
        (st\<lparr>src := s3\<rparr>) = Some (Inr c, st\<lparr>src := s3\<rparr>)"
      by blast
    then show ?thesis
      using first that by (simp add: readSymbol_def stmt_defs)
  qed
  have t20: "\<exists>c. c \<noteq> 0 \<and>
      readSymbol io vc ts codec_tables st = Some (Inr c, st\<lparr>src := s2\<rparr>)"
    if "0xE0 \<le> unat b" "unat b < 0xF0" "readUnsignedShort io s1 = (Inr sh, s2)"
  proof -
    from penta_to_cipher_small [OF tier20, of ts codec_tables b sh "st\<lparr>src := s2\<rparr>"]
    obtain c where "c \<noteq> 0"
      and "penta_to_cipher ts codec_tables
        (scast (push_bit 16 ((ucast b :: jInt) AND 0x0F) + ucast sh)) (st\<lparr>src := s2\<rparr>)
        = Some (Inr c, st\<lparr>src := s2\<rparr>)"
      by blast
    then show ?thesis
      using first that by (simp add: readSymbol_def stmt_defs)
  qed
  have t0: "readSymbol io vc ts codec_tables st = Some (Inr 0x40000000, st\<lparr>src := s1\<rparr>)"
    if "unat b = 0xFE"
  proof -
    have "penta_to_cipher ts codec_tables 0 (st\<lparr>src := s1\<rparr>)
        = Some (Inr 0x40000000, st\<lparr>src := s1\<rparr>)"
      by (simp add: penta_to_cipher_def plen_loop.simps [of 0 0] encodePenta_def word_sle_eq)
    then show ?thesis
      using first that by (simp add: readSymbol_def stmt_defs)
  qed
  let ?penta = "push_bit 32 (scast ((ucast b :: jInt) AND 0x07)) + (scast w AND 0xFFFFFFFF) :: jLong"
  have r35: "readSymbol io vc ts codec_tables st
      = penta_to_cipher ts codec_tables ?penta (st\<lparr>src := s2\<rparr>)"
    if "0xF0 \<le> unat b" "unat b < 0xF8" "readInt io s1 = (Inr w, s2)"
    using first that by (simp add: readSymbol_def stmt_defs)
  have t35: "if drop_bit 30 ?penta = 0 \<or> drop_bit 30 ?penta = 28 \<or> drop_bit 30 ?penta = 29
      then \<exists>c. c \<noteq> 0 \<and>
        readSymbol io vc ts codec_tables st = Some (Inr c, st\<lparr>src := s2\<rparr>)
      else readSymbol io vc ts codec_tables st =
        (case ts ?penta of
           None \<Rightarrow> None
         | Some (Inl e) \<Rightarrow> Some (Inl e, st\<lparr>src := s2\<rparr>)
         | Some (Inr str) \<Rightarrow> Some (Inr 0, st\<lparr>src := s2, result := Some str\<rparr>))"
    if "0xF0 \<le> unat b" "unat b < 0xF8" "readInt io s1 = (Inr w, s2)"
  proof (cases "drop_bit 30 ?penta = 0")
    case True
    from penta_to_cipher_small [OF True, of ts codec_tables "st\<lparr>src := s2\<rparr>"]
    show ?thesis using True by (simp add: r35 [OF that])
  next
    case False
    from penta_to_cipher_35 [OF tier35 False, of ts "st\<lparr>src := s2\<rparr>"]
    show ?thesis using False by (simp add: r35 [OF that])
  qed
  show ?thesis
    using t15 t30 t20 t0 t35 by (simp add: Let_def)
qed

text \<open>
  One run for each tier, and the symbol \<^verbatim>\<open>AAAAAAA\<close> on the 35-bit tier, which has no
  cipher.
\<close>

theorem penta_tiers_cipher_witness:
  "readSymbol queue_input 0xFFFFFFFFC0000000 (toString codec_tables) codec_tables
     \<lparr>src = [Byte 0x24, Byte 0x8D], buffer = [], result = None\<rparr>
   = Some (Inr 0x4000248D, \<lparr>src = [], buffer = [], result = None\<rparr>) \<and>
   readSymbol queue_input 0xFFFFFFFFC0000000 (toString codec_tables) codec_tables
     \<lparr>src = [Byte 0x80, Byte 0, Byte 0x24, Byte 0x8D], buffer = [], result = None\<rparr>
   = Some (Inr 0x4000248D, \<lparr>src = [], buffer = [], result = None\<rparr>) \<and>
   readSymbol queue_input 0xFFFFFFFFC0000000 (toString codec_tables) codec_tables
     \<lparr>src = [Byte 0xE0, Byte 0x24, Byte 0x8D], buffer = [], result = None\<rparr>
   = Some (Inr 0x4000248D, \<lparr>src = [], buffer = [], result = None\<rparr>) \<and>
   readSymbol queue_input 0xFFFFFFFFC0000000 (toString codec_tables) codec_tables
     \<lparr>src = [Byte 0xFE], buffer = [], result = None\<rparr>
   = Some (Inr 0x40000000, \<lparr>src = [], buffer = [], result = None\<rparr>) \<and>
   readSymbol queue_input 0xFFFFFFFFC0000000 (toString codec_tables) codec_tables
     \<lparr>src = [Byte 0xF7, Byte 0x02, Byte 0x10, Byte 0x84, Byte 0x21], buffer = [],
      result = None\<rparr>
   = Some (Inr 0x82108421, \<lparr>src = [], buffer = [], result = None\<rparr>) \<and>
   readSymbol queue_input 0xFFFFFFFFC0000000 (toString codec_tables) codec_tables
     \<lparr>src = [Byte 0xF0, Byte 0x42, Byte 0x10, Byte 0x84, Byte 0x21], buffer = [],
      result = None\<rparr>
   = Some (Inr 0, \<lparr>src = [], buffer = [], result = Some [65, 65, 65, 65, 65, 65, 65]\<rparr>)"
proof -
  have a: "readUnsignedByte queue_input
      (src \<lparr>src = [Byte 0x24, Byte 0x8D], buffer = [], result = None\<rparr>)
      = (Inr 0x24, [Byte 0x8D])"
    and b: "readUnsignedByte queue_input
      (src \<lparr>src = [Byte 0xF0, Byte 0x42, Byte 0x10, Byte 0x84, Byte 0x21], buffer = [],
        result = None\<rparr>)
      = (Inr 0xF0, [Byte 0x42, Byte 0x10, Byte 0x84, Byte 0x21])"
    by (simp_all add: queue_input_def)
  from penta_tiers_cipher [OF a] penta_tiers_cipher [OF b]
  show ?thesis by (simp add: run_tiers run_fallback)
qed

text \<open>
  C6 as stated fails: the bytes \<open>F0 42 10 84 21\<close> select the 35-bit tier, their penta
  has the high bits 1, \<^verbatim>\<open>encodePenta\<close> returns 0 and \<^verbatim>\<open>readSymbol\<close> takes the branch
  that stores the string.
\<close>

theorem fallback_branch_reached:
  "encodePenta codec_tables 0x42108421 35 = 0 \<and>
   readSymbol queue_input 0xFFFFFFFFC0000000 (toString codec_tables) codec_tables
     \<lparr>src = [Byte 0xF0, Byte 0x42, Byte 0x10, Byte 0x84, Byte 0x21], buffer = [],
      result = None\<rparr>
   = Some (Inr 0, \<lparr>src = [], buffer = [], result = Some [65, 65, 65, 65, 65, 65, 65]\<rparr>)"
  by (simp add: run_fallback encodePenta_def word_sle_eq slash_dollar drop_bit_eq_div)

subsection \<open>The length of a CESU-8 symbol\<close>

text \<open>
  C7: on the CESU-8 branch (first byte \<open>0xFD\<close>), after the length is read with
  \<^verbatim>\<open>readCompactLong\<close>: a length below -1 or above the largest 32-bit signed integer
  raises the illegal-length error; the length -1 sets the result slot to null and
  returns 0; the length 0 sets it to the empty string and returns 0. In all three cases
  the source is left as \<^verbatim>\<open>readCompactLong\<close> left it: no character is read.
\<close>

theorem cesu8_length_cases:
  fixes st :: "'src rs_state"
  assumes "readUnsignedByte io (src st) = (Inr 0xFD, s1)"
    and "readCompactLong io s1 = (Inr len, s2)"
  shows
    "(len <s - 1 \<or> 0x7FFFFFFF <s len \<longrightarrow>
        readSymbol io vc ts t st = Some (Inl IllegalLength, st\<lparr>src := s2\<rparr>)) \<and>
     (len = - 1 \<longrightarrow>
        readSymbol io vc ts t st = Some (Inr 0, st\<lparr>src := s2, result := None\<rparr>)) \<and>
     (len = 0 \<longrightarrow>
        readSymbol io vc ts t st = Some (Inr 0, st\<lparr>src := s2, result := Some []\<rparr>))"
  using assms by (simp add: readSymbol_def stmt_defs word_sless_alt)

text \<open>
  The lengths -2, \<open>2^31\<close>, -1 and 0 on the queue source, each followed by a character
  that stays on the queue.
\<close>

theorem cesu8_length_cases_witness:
  "readSymbol queue_input 0xFFFFFFFFC0000000 (toString codec_tables) codec_tables
     \<lparr>src = [Byte 0xFD, CompactLong (- 2), UTFChar 65], buffer = [], result = Some [88]\<rparr>
   = Some (Inl IllegalLength, \<lparr>src = [UTFChar 65], buffer = [], result = Some [88]\<rparr>) \<and>
   readSymbol queue_input 0xFFFFFFFFC0000000 (toString codec_tables) codec_tables
     \<lparr>src = [Byte 0xFD, CompactLong 0x80000000, UTFChar 65], buffer = [],
      result = Some [88]\<rparr>
   = Some (Inl IllegalLength, \<lparr>src = [UTFChar 65], buffer = [], result = Some [88]\<rparr>) \<and>
   readSymbol queue_input 0xFFFFFFFFC0000000 (toString codec_tables) codec_tables
     \<lparr>src = [Byte 0xFD, CompactLong (- 1), UTFChar 65], buffer = [], result = Some [88]\<rparr>
   = Some (Inr 0, \<lparr>src = [UTFChar 65], buffer = [], result = None\<rparr>) \<and>
   readSymbol queue_input 0xFFFFFFFFC0000000 (toString codec_tables) codec_tables
     \<lparr>src = [Byte 0xFD, CompactLong 0, UTFChar 65], buffer = [], result = Some [88]\<rparr>
   = Some (Inr 0, \<lparr>src = [UTFChar 65], buffer = [], result = Some []\<rparr>)"
proof -
  have first: "readUnsignedByte queue_input
      (src \<lparr>src = Byte 0xFD # q, buffer = [], result = Some [88]\<rparr>) = (Inr 0xFD, q)"
    for q by (simp add: queue_input_def)
  have len: "readCompactLong queue_input [CompactLong n, UTFChar 65] = (Inr n, [UTFChar 65])"
    for n by (simp add: queue_input_def)
  have a: "(- 2 :: jLong) <s - 1" and b: "0x7FFFFFFF <s (0x80000000 :: jLong)"
    by (simp_all add: word_sless_alt)
  from cesu8_length_cases [OF first len, of "- 2"] cesu8_length_cases [OF first len, of "0x80000000"]
    cesu8_length_cases [OF first len, of "- 1"] cesu8_length_cases [OF first len, of 0] a b
  show ?thesis by simp
qed

subsection \<open>The result slot on a non-zero return\<close>




subsection \<open>Two wire forms of the empty symbol\<close>

text \<open>
  C10: for the two bytes \<open>0x00 0x00\<close> \<^verbatim>\<open>readSymbol\<close> computes the penta 0 and the
  length 0 and returns the cipher \<open>0x40000000\<close>, the same cipher that it returns for the
  single byte \<open>0xFE\<close>.
\<close>

theorem empty_symbol_two_forms:
  assumes "readUnsignedByte io s = (Inr 0, s1)"
    and "readUnsignedByte io s1 = (Inr 0, s2)"
    and "readUnsignedByte io s' = (Inr 0xFE, s1')"
  shows "readSymbol io vc ts t \<lparr>src = s, buffer = bf, result = r\<rparr>
           = Some (Inr 0x40000000, \<lparr>src = s2, buffer = bf, result = r\<rparr>) \<and>
         readSymbol io vc ts t \<lparr>src = s', buffer = bf, result = r\<rparr>
           = Some (Inr 0x40000000, \<lparr>src = s1', buffer = bf, result = r\<rparr>) \<and>
         plen_loop 0 0 = Some 0 \<and> encodePenta t 0 0 = 0x40000000"
proof -
  have p: "plen_loop 0 0 = Some 0" by (simp add: plen_loop.simps [of 0 0])
  have e: "encodePenta t 0 0 = 0x40000000" by (simp add: encodePenta_def word_sle_eq)
  have c: "penta_to_cipher ts t 0 st = Some (Inr 0x40000000, st)" for st :: "'a rs_state"
    by (simp add: penta_to_cipher_def p e)
  show ?thesis
    using assms by (simp add: readSymbol_def then_do_def from_in_def c p e)
qed

text \<open>
  The two inputs on the queue source. The value taken for \<^verbatim>\<open>VALID_CIPHER\<close> plays no
  part on these paths.
\<close>

theorem empty_symbol_two_forms_witness:
  "readSymbol queue_input 0xFFFFFFFFC0000000 (toString codec_tables) codec_tables
     \<lparr>src = [Byte 0, Byte 0], buffer = [], result = None\<rparr>
     = Some (Inr 0x40000000, \<lparr>src = [], buffer = [], result = None\<rparr>) \<and>
   readSymbol queue_input 0xFFFFFFFFC0000000 (toString codec_tables) codec_tables
     \<lparr>src = [Byte 0xFE], buffer = [], result = None\<rparr>
     = Some (Inr 0x40000000, \<lparr>src = [], buffer = [], result = None\<rparr>)"
proof -
  have "readUnsignedByte queue_input [Byte 0, Byte 0] = (Inr 0, [Byte 0])"
    and "readUnsignedByte queue_input [Byte 0] = (Inr 0, [])"
    and "readUnsignedByte queue_input [Byte 0xFE] = (Inr 0xFE, [])"
    by (simp_all add: queue_input_def)
  from empty_symbol_two_forms [OF this] show ?thesis by blast
qed

end
